theory Spec2Isabelle
  imports Main "HOL-Library.Multiset" "HOL-Library.Log_Nat"
begin

section \<open>Strings\<close>

text \<open>
  A JavaScript string is a sequence of UTF-16 code units, and \<open>length\<close> counts code
  units. A code unit is modelled by its number; \<open>str\<close> turns an ASCII literal into the
  code units it denotes.
\<close>

type_synonym code_unit = nat
type_synonym jsstring = "code_unit list"

definition str :: "string \<Rightarrow> jsstring" where
  "str s = map of_char s"

section \<open>Data model (interfaces.ts, extension.ts)\<close>

datatype step_status = accepted | rejected | edited | refining

text \<open>
  \<open>status\<close> is an optional field: \<open>None\<close> is \<open>undefined\<close>. \<open>originalIndex\<close> is a
  JavaScript number that only ever holds small integers (\<open>index + 1\<close>, or \<open>-1\<close> on a
  step that has just been created).
\<close>

record PlanStep =
  step_id :: jsstring
  content :: jsstring
  status :: "step_status option"
  originalIndex :: int

text \<open>
  The plan as a value: what \<open>JSON.stringify(planState)\<close> and \<open>postMessage\<close> hand to the
  webview. \<open>lastModified\<close> is a \<open>Date\<close>, modelled by its time value.
\<close>

record PlanState =
  steps :: "PlanStep list"
  taskDescription :: jsstring
  lastModified :: int

text \<open>
  In the extension host, \<open>planState.steps\<close> is an array of references to step objects, and
  the handlers mutate those objects in place (\<open>stepToModify.status = ...\<close>,
  \<open>step.originalIndex = ...\<close>). The controller's memory is therefore a store of step objects
  together with the array of references; a reference is the position of the object in the
  store, and a new object is allocated at the end of the store.
\<close>

type_synonym ref = nat

record controller =
  objects :: "PlanStep list"
  stepRefs :: "ref list"
  task :: jsstring
  modified :: int

definition deref :: "controller \<Rightarrow> ref \<Rightarrow> PlanStep" where
  "deref c r = objects c ! r"

definition planState :: "controller \<Rightarrow> PlanState" where
  "planState c =
     \<lparr>steps = map (deref c) (stepRefs c), taskDescription = task c, lastModified = modified c\<rparr>"

definition ids :: "controller \<Rightarrow> jsstring list" where
  "ids c = map step_id (steps (planState c))"

definition displayIndices :: "controller \<Rightarrow> int list" where
  "displayIndices c = map originalIndex (steps (planState c))"

text \<open>Assignment to the fields of the object behind a reference.\<close>

definition assign :: "ref \<Rightarrow> (PlanStep \<Rightarrow> PlanStep) \<Rightarrow> controller \<Rightarrow> controller" where
  "assign r f c = c\<lparr>objects := (objects c)[r := f (objects c ! r)]\<rparr>"

section \<open>Messages and effects\<close>

datatype PlanMessage =
    acceptStep jsstring
  | rejectStep jsstring
  | editStep jsstring jsstring
  | reorderSteps "jsstring list"
  | deleteStep jsstring
  | addStep "jsstring option" jsstring
  | savePlan
  | sendToCopilotChat jsstring

datatype webview_message =
    updateStepStatus jsstring step_status
  | stateUpdated PlanState

text \<open>
  What a handler does besides changing the plan: the messages it posts to the webview, the
  refine task it starts (with the object it captured and the arguments it passes to
  \<open>refineStep\<close>), and the calls to the host for export and clipboard.
\<close>

datatype effect =
    PostMessage webview_message
  | StartRefine ref jsstring "jsstring list" int
  | OpenTextDocument
  | WriteClipboard jsstring
  | ShowInformationMessage jsstring

section \<open>The controller (extension.ts)\<close>

text \<open>
  \<open>updateStepIndices\<close>: \<open>steps.forEach((step, index) => { step.originalIndex = index + 1 })\<close>.
  The second argument is the index of the head of the remaining array. The writes go to the
  objects in the order of the array, so an object that stands twice in the array keeps the
  last index written.
\<close>

fun updateStepIndices :: "ref list \<Rightarrow> nat \<Rightarrow> PlanStep list \<Rightarrow> PlanStep list" where
  "updateStepIndices [] index h = h"
| "updateStepIndices (r # rs) index h =
     updateStepIndices rs (index + 1) (h[r := (h ! r)\<lparr>originalIndex := int index + 1\<rparr>])"

text \<open>\<open>planState.steps.find(s => s.id === id)\<close>: the first step of the array with that id.\<close>

definition find_step :: "controller \<Rightarrow> jsstring \<Rightarrow> ref option" where
  "find_step c i = List.find (\<lambda>r. step_id (deref c r) = i) (stepRefs c)"

text \<open>\<open>Array.prototype.findIndex\<close> (\<open>None\<close> is \<open>-1\<close>) and \<open>indexOf\<close>.\<close>

fun findIndex :: "('a \<Rightarrow> bool) \<Rightarrow> 'a list \<Rightarrow> nat option" where
  "findIndex p [] = None"
| "findIndex p (x # xs) =
     (if p x then Some 0 else map_option Suc (findIndex p xs))"

definition indexOf :: "'a list \<Rightarrow> 'a \<Rightarrow> int" where
  "indexOf xs x = (case findIndex (\<lambda>y. y = x) xs of None \<Rightarrow> -1 | Some k \<Rightarrow> int k)"

text \<open>\<open>xs.splice(k, 0, x)\<close> for \<open>k \<le> length xs\<close>.\<close>

definition splice_in :: "nat \<Rightarrow> 'a \<Rightarrow> 'a list \<Rightarrow> 'a list" where
  "splice_in k x xs = take k xs @ [x] @ drop k xs"

text \<open>
  The \<open>if\<close>/\<open>else\<close> of the \<open>addStep\<close> case: the array after the new step \<open>newStep\<close> has been
  spliced in or pushed. \<open>if (message.afterId)\<close> is false for \<open>null\<close> and for the empty string.
\<close>

definition insertStep :: "jsstring option \<Rightarrow> ref \<Rightarrow> controller \<Rightarrow> ref list" where
  "insertStep afterId newStep c =
     (case afterId of
        None \<Rightarrow> stepRefs c @ [newStep]
      | Some a \<Rightarrow>
          (if a = [] then stepRefs c @ [newStep]
           else (case findIndex (\<lambda>q. step_id (deref c q) = a) (stepRefs c) of
                   Some afterIndex \<Rightarrow> splice_in (afterIndex + 1) newStep (stepRefs c)
                 | None \<Rightarrow> stepRefs c @ [newStep])))"

text \<open>
  \<open>generateStepId\<close>: \<open>(): string => crypto.randomUUID()\<close>. The random generator of the
  platform is outside the program; the argument is the value that its call returns.
  \<open>generateStepId\<close> hands that value on: the program keeps no record of the ids it has given
  out and compares a new id with nothing.
\<close>

definition generateStepId :: "jsstring \<Rightarrow> jsstring" where
  "generateStepId randomUUID = randomUUID"

declare generateStepId_def [simp]

text \<open>
  The \<open>switch\<close> of the message handler. The result is the flag \<open>updated\<close>, the memory after
  the case, and the effects of the case in the order the code performs them. The first
  argument is the value that \<open>crypto.randomUUID()\<close> returns when the case calls
  \<open>generateStepId()\<close>.
\<close>

fun dispatch :: "jsstring \<Rightarrow> PlanMessage \<Rightarrow> controller \<Rightarrow> bool \<times> controller \<times> effect list" where
  "dispatch uuid (acceptStep i) c =
     (case find_step c i of
        Some r \<Rightarrow> (True, assign r (\<lambda>s. s\<lparr>status := Some accepted\<rparr>) c, [])
      | None \<Rightarrow> (False, c, []))"
| "dispatch uuid (rejectStep i) c =
     (case find_step c i of
        Some r \<Rightarrow>
          (let c1 = assign r (\<lambda>s. s\<lparr>status := Some rejected\<rparr>) c
           in (True, c1,
               [PostMessage (updateStepStatus i refining),
                StartRefine r (content (deref c1 r)) (map (content \<circ> deref c1) (stepRefs c1))
                  (indexOf (stepRefs c1) r)]))
      | None \<Rightarrow> (False, c, []))"
| "dispatch uuid (editStep i new) c =
     (case find_step c i of
        Some r \<Rightarrow>
          (if content (deref c r) \<noteq> new
           then (True, assign r (\<lambda>s. s\<lparr>content := new, status := Some edited\<rparr>) c, [])
           else (False, c, []))
      | None \<Rightarrow> (False, c, []))"
| "dispatch uuid (reorderSteps newOrder) c =
     (let newSteps = List.map_filter (find_step c) newOrder
      in (True, c\<lparr>stepRefs := newSteps, objects := updateStepIndices newSteps 0 (objects c)\<rparr>, []))"
| "dispatch uuid (deleteStep i) c =
     (let kept = filter (\<lambda>r. step_id (deref c r) \<noteq> i) (stepRefs c)
      in (True, c\<lparr>stepRefs := kept, objects := updateStepIndices kept 0 (objects c)\<rparr>, []))"
| "dispatch uuid (addStep afterId new) c =
     (let newStep = \<lparr>step_id = generateStepId uuid, content = new, status = Some edited,
                     originalIndex = -1\<rparr>;
          r = length (objects c);
          h = objects c @ [newStep];
          rs = insertStep afterId r c
      in (True, c\<lparr>stepRefs := rs, objects := updateStepIndices rs 0 h\<rparr>, []))"
| "dispatch uuid savePlan c =
     (False, c,
      [OpenTextDocument,
       ShowInformationMessage (str ''Plan exported to a new untitled markdown document.'')])"
| "dispatch uuid (sendToCopilotChat text) c =
     (False, c,
      [WriteClipboard text,
       ShowInformationMessage (str ''Plan successfully copied to clipboard.'')])"

text \<open>
  The handler: the \<open>switch\<close>, then \<open>if (updated) { planState.lastModified = new Date();
  postMessage({command: 'stateUpdated', state: planState}) }\<close>. \<open>now\<close> is the value of
  \<open>new Date()\<close>.
\<close>

definition onDidReceiveMessage ::
  "int \<Rightarrow> jsstring \<Rightarrow> PlanMessage \<Rightarrow> controller \<Rightarrow> controller \<times> effect list" where
  "onDidReceiveMessage now uuid m c =
     (case dispatch uuid m c of
        (updated, c1, es) \<Rightarrow>
          (if updated
           then (let c2 = c1\<lparr>modified := now\<rparr>
                 in (c2, es @ [PostMessage (stateUpdated (planState c2))]))
           else (c1, es)))"

text \<open>
  The rest of the task started by \<open>rejectStep\<close>, run when \<open>refineStep\<close> has returned
  \<open>refinedContent\<close>: it writes to the object captured in \<open>stepToModify\<close>, whatever has
  happened to the array since.
\<close>

definition refineFinished :: "int \<Rightarrow> ref \<Rightarrow> jsstring \<Rightarrow> controller \<Rightarrow> controller \<times> effect list" where
  "refineFinished now r refinedContent c =
     (let c1 = assign r (\<lambda>s. s\<lparr>content := refinedContent, status := Some edited\<rparr>) c;
          c2 = c1\<lparr>modified := now\<rparr>
      in (c2, [PostMessage (stateUpdated (planState c2))]))"

text \<open>
  Creation of the plan: one new object per parsed step. Each raw step comes with the value
  that \<open>crypto.randomUUID()\<close> returns when \<open>generateStepId()\<close> is called for it.
\<close>

definition createPlanState :: "jsstring \<Rightarrow> int \<Rightarrow> (jsstring \<times> jsstring) list \<Rightarrow> controller" where
  "createPlanState taskText now rawSteps =
     \<lparr>objects = map (\<lambda>(index, (i, text)).
                       \<lparr>step_id = generateStepId i, content = text, status = None,
                        originalIndex = int index + 1\<rparr>)
                    (List.enumerate 0 rawSteps),
      stepRefs = [0..<length rawSteps],
      task = taskText,
      modified = now\<rparr>"

text \<open>A run of the handler over a list of messages, each with its clock and generated id.\<close>

fun run :: "(int \<times> jsstring \<times> PlanMessage) list \<Rightarrow> controller \<Rightarrow> controller" where
  "run [] c = c"
| "run ((now, uuid, m) # ms) c = run ms (fst (onDidReceiveMessage now uuid m c))"

text \<open>
  The references of the array point into the store, and no object stands twice in the
  array.
\<close>

definition well_formed :: "controller \<Rightarrow> bool" where
  "well_formed c = (distinct (stepRefs c) \<and> list_all (\<lambda>r. r < length (objects c)) (stepRefs c))"

text \<open>The display index of the step at position \<open>k\<close> is \<open>k + 1\<close>, at every position.\<close>

definition indices_fresh :: "controller \<Rightarrow> bool" where
  "indices_fresh c = (displayIndices c = map (\<lambda>k. int k + 1) [0..<length (stepRefs c)])"

text \<open>The intents that change the structure of the plan.\<close>

fun structural :: "PlanMessage \<Rightarrow> bool" where
  "structural (reorderSteps newOrder) = True"
| "structural (deleteStep i) = True"
| "structural (addStep afterId new) = True"
| "structural m = False"

fun repeats_no_id :: "PlanMessage \<Rightarrow> bool" where
  "repeats_no_id (reorderSteps newOrder) = distinct newOrder"
| "repeats_no_id m = True"



section \<open>Text functions of the JavaScript library\<close>

text \<open>
  White space and line terminators: the code units that \<open>\s\<close> matches and that
  \<open>String.prototype.trim\<close> removes.
\<close>

definition isSpace :: "code_unit \<Rightarrow> bool" where
  "isSpace ch =
     (ch \<in> set [9, 10, 11, 12, 13, 32, 160, 5760, 8232, 8233, 8239, 8287, 12288, 65279]
      \<or> (8192 \<le> ch \<and> ch \<le> 8202))"

text \<open>\<open>\d\<close>, and the line terminators that \<open>.\<close> does not match.\<close>

definition isDigit :: "code_unit \<Rightarrow> bool" where
  "isDigit ch = (48 \<le> ch \<and> ch \<le> 57)"

definition isLineTerminator :: "code_unit \<Rightarrow> bool" where
  "isLineTerminator ch = (ch \<in> set [10, 13, 8232, 8233])"

definition trim :: "jsstring \<Rightarrow> jsstring" where
  "trim s = rev (dropWhile isSpace (rev (dropWhile isSpace s)))"

text \<open>\<open>Array.prototype.join\<close> on strings.\<close>

fun join :: "jsstring \<Rightarrow> jsstring list \<Rightarrow> jsstring" where
  "join sep [] = []"
| "join sep [x] = x"
| "join sep (x # y # ys) = x @ sep @ join sep (y # ys)"

text \<open>The decimal digits of a natural number, as a template literal prints it.\<close>

fun decimal :: "nat \<Rightarrow> jsstring" where
  "decimal n = (if n < 10 then [48 + n] else decimal (n div 10) @ [48 + n mod 10])"

text \<open>
  \<open>text.replace(re, ...)\<close> with a global regular expression. \<open>m s\<close> is the match of the
  expression at the start of \<open>s\<close>: the replacement text and the text after the match. The search goes on after the match; a
  code unit where nothing matches is copied. After an empty match the next code unit is
  copied, as \<open>lastIndex\<close> is advanced by one.
\<close>

function replace_global ::
  "(jsstring \<Rightarrow> (jsstring \<times> jsstring) option) \<Rightarrow> jsstring \<Rightarrow> jsstring" where
  "replace_global m [] = (case m [] of Some (out, rest) \<Rightarrow> out | None \<Rightarrow> [])"
| "replace_global m (ch # t) =
     (case m (ch # t) of
        Some (out, rest) \<Rightarrow>
          (if length rest < length (ch # t) then out @ replace_global m rest
           else out @ ch # replace_global m t)
      | None \<Rightarrow> ch # replace_global m t)"
  by pat_completeness auto
termination
  by (relation "measure (\<lambda>(m, s). length s)") auto

section \<open>The plan parser (planService.ts)\<close>

text \<open>
  \<open>/Step/i\<close> at the start of a string. Without the \<open>u\<close> flag, case-insensitive matching
  never equates a code unit outside ASCII with an ASCII letter, so each letter matches
  exactly its two cases.
\<close>

fun step_word :: "jsstring \<Rightarrow> jsstring option" where
  "step_word (s # t # e # p # rest) =
     (if s \<in> {83, 115} \<and> t \<in> {84, 116} \<and> e \<in> {69, 101} \<and> p \<in> {80, 112}
      then Some rest else None)"
| "step_word other = None"

text \<open>
  \<open>/Step\s+\d+:/i\<close> at the start of a string; the result is the text after the match.
  \<open>\s+\<close> and \<open>\d+\<close> are greedy, and giving back a white space or a digit cannot help:
  the code unit that follows must be a digit, respectively a colon.
\<close>

definition match_label :: "jsstring \<Rightarrow> jsstring option" where
  "match_label s =
     (case step_word s of
        None \<Rightarrow> None
      | Some r1 \<Rightarrow>
          (if takeWhile isSpace r1 = [] then None
           else (let r2 = dropWhile isSpace r1 in
                 if takeWhile isDigit r2 = [] then None
                 else (case dropWhile isDigit r2 of
                         [] \<Rightarrow> None
                       | ch # r3 \<Rightarrow> if ch = 58 then Some r3 else None))))"

text \<open>
  \<open>plan.split(/(?=Step\s+\d+:)/i)\<close>. The expression is a lookahead, so every match is
  empty: the string is cut before each position where a label starts, except position 0
  (an empty match at the start of the current piece does not cut). The first argument is
  the piece collected since the last cut.
\<close>

fun split_sections :: "jsstring \<Rightarrow> jsstring \<Rightarrow> jsstring list" where
  "split_sections piece [] = [piece]"
| "split_sections piece (ch # rest) =
     (if piece \<noteq> [] \<and> match_label (ch # rest) \<noteq> None
      then piece # split_sections [ch] rest
      else split_sections (piece @ [ch]) rest)"

text \<open>
  The body of the loop over the sections: the step it pushes, if any.
  \<open>/^Step\s+\d+:\s*(.*)/is\<close> matches when the label does; \<open>\s*\<close> takes all the white space
  after the label and the group the rest of the section.
\<close>

definition section_step :: "jsstring \<Rightarrow> jsstring option" where
  "section_step section =
     (let trimmedSection = trim section in
      if trimmedSection = [] then None
      else (case match_label trimmedSection of
              None \<Rightarrow> None
            | Some afterLabel \<Rightarrow>
                (let group1 = dropWhile isSpace afterLabel in
                 if group1 = [] then None
                 else (let stepContent = trim group1 in
                       if 20 < length stepContent then Some stepContent else None))))"

definition parsePlanIntoSteps :: "jsstring \<Rightarrow> jsstring list" where
  "parsePlanIntoSteps plan = List.map_filter section_step (split_sections [] plan)"

subsection \<open>The parsing contract, in the words of the specification\<close>

text \<open>
  \<open>upto_label s\<close> cuts \<open>s\<close> before the first label that starts in it: the text before the
  label, and the text from the label on (empty when there is no label).
\<close>

fun upto_label :: "jsstring \<Rightarrow> jsstring \<times> jsstring" where
  "upto_label [] = ([], [])"
| "upto_label (ch # rest) =
     (if match_label (ch # rest) \<noteq> None then ([], ch # rest)
      else (ch # fst (upto_label rest), snd (upto_label rest)))"

lemma length_upto_label: "length (snd (upto_label s)) \<le> length s"
  by (induction s) auto

lemma length_step_word: "step_word s = Some r \<Longrightarrow> length r < length s"
  by (induction s rule: step_word.induct) (auto split: if_splits)

lemma length_match_label:
  assumes "match_label s = Some r" shows "length r < length s"
proof -
  from assms obtain r1 where r1: "step_word s = Some r1"
    by (auto simp: match_label_def split: option.splits)
  from assms r1 obtain ch where "dropWhile isDigit (dropWhile isSpace r1) = ch # r"
    by (auto simp: match_label_def Let_def split: if_splits list.splits)
  then have "length (dropWhile isDigit (dropWhile isSpace r1)) = Suc (length r)"
    by simp
  moreover have "length (dropWhile isDigit (dropWhile isSpace r1)) \<le> length r1"
    by (meson length_dropWhile_le order_trans)
  ultimately show ?thesis using length_step_word [OF r1] by simp
qed

text \<open>
  ``Split on occurrences of the pattern \<open>Step <integer>:\<close>, discard the label, keep the
  remainder up to the next label (or end of text) as one step's raw content'': the raw
  contents, in order of appearance. Text before the first label belongs to no step.
\<close>

function spec_bodies :: "jsstring \<Rightarrow> jsstring list" where
  "spec_bodies [] = []"
| "spec_bodies (ch # rest) =
     (case match_label (ch # rest) of
        None \<Rightarrow> spec_bodies rest
      | Some afterLabel \<Rightarrow>
          fst (upto_label afterLabel) # spec_bodies (snd (upto_label afterLabel)))"
  by pat_completeness auto
termination
proof (relation "measure length")
  fix ch rest afterLabel
  assume "match_label (ch # rest) = Some afterLabel"
  from length_match_label [OF this] length_upto_label [of afterLabel]
  show "(snd (upto_label afterLabel), ch # rest) \<in> measure length" by simp
qed simp_all

text \<open>
  ``Returns the trimmed bodies, keeping a body if and only if its trimmed length is
  strictly greater than 20.''
\<close>

definition spec_parse :: "jsstring \<Rightarrow> jsstring list" where
  "spec_parse plan = filter (\<lambda>body. 20 < length body) (map trim (spec_bodies plan))"

subsection \<open>Notions for stating and proving the contract\<close>

text \<open>A string that is exactly one label.\<close>

definition is_label :: "jsstring \<Rightarrow> bool" where
  "is_label l = (match_label l = Some [])"

text \<open>A string in which no label starts.\<close>

fun label_free :: "jsstring \<Rightarrow> bool" where
  "label_free [] = True"
| "label_free (ch # s) = (match_label (ch # s) = None \<and> label_free s)"

text \<open>A label, as a string: the word, white space, digits and the colon.\<close>

definition label_shape :: "jsstring \<Rightarrow> bool" where
  "label_shape l =
     (\<exists>a b c d ws ds. l = a # b # c # d # ws @ ds @ [58]
        \<and> a \<in> {83, 115} \<and> b \<in> {84, 116} \<and> c \<in> {69, 101} \<and> d \<in> {80, 112}
        \<and> ws \<noteq> [] \<and> (\<forall>x\<in>set ws. isSpace x) \<and> ds \<noteq> [] \<and> (\<forall>x\<in>set ds. isDigit x))"

text \<open>\<open>trimEnd\<close>, the second half of \<open>trim\<close>.\<close>

definition trimEnd :: "jsstring \<Rightarrow> jsstring" where
  "trimEnd s = rev (dropWhile isSpace (rev s))"

text \<open>The sections that \<open>split\<close> returns for a text that starts with a label.\<close>

definition tail_sections :: "jsstring \<Rightarrow> jsstring list" where
  "tail_sections r = (case r of [] \<Rightarrow> [] | ch # r' \<Rightarrow> split_sections [ch] r')"

section \<open>Refining a rejected step (planService.ts)\<close>

subsection \<open>cleanMarkdown\<close>

text \<open>\<open>d\<close> at the start of a string: the text after it.\<close>

fun strip_prefix :: "jsstring \<Rightarrow> jsstring \<Rightarrow> jsstring option" where
  "strip_prefix [] s = Some s"
| "strip_prefix (d # ds) [] = None"
| "strip_prefix (d # ds) (ch # s) = (if d = ch then strip_prefix ds s else None)"

text \<open>
  \<open>(.*?)\<close> followed by the closing delimiter \<open>d\<close>: the group takes as few code units as
  possible, none of them a line terminator. The result is the group and the text after the
  delimiter.
\<close>

fun lazy_until :: "jsstring \<Rightarrow> jsstring \<Rightarrow> (jsstring \<times> jsstring) option" where
  "lazy_until d [] = (case strip_prefix d [] of Some rest \<Rightarrow> Some ([], rest) | None \<Rightarrow> None)"
| "lazy_until d (ch # s) =
     (case strip_prefix d (ch # s) of
        Some rest \<Rightarrow> Some ([], rest)
      | None \<Rightarrow>
          (if isLineTerminator ch then None
           else map_option (\<lambda>(group, rest). (ch # group, rest)) (lazy_until d s)))"

text \<open>
  The match of \<open>d(.*?)d\<close> at the start of a string, replaced by the group between the
  tags \<open>opening\<close> and \<open>closing\<close>.
\<close>

definition delimited ::
  "jsstring \<Rightarrow> jsstring \<Rightarrow> jsstring \<Rightarrow> jsstring \<Rightarrow> (jsstring \<times> jsstring) option" where
  "delimited d opening closing s =
     (case strip_prefix d s of
        None \<Rightarrow> None
      | Some inner \<Rightarrow>
          map_option (\<lambda>(group, rest). (opening @ group @ closing, rest)) (lazy_until d inner))"

text \<open>
  \<open>.replace(/^- (.*$)/gim, '\<bullet> $1')\<close>, the bullet being U+2022: at the start of the text and
  after each line terminator, a hyphen followed by a space becomes the bullet; the group is
  the rest of the line and is written back as it is.
\<close>

fun bullets :: "bool \<Rightarrow> jsstring \<Rightarrow> jsstring" where
  "bullets atLineStart [] = []"
| "bullets atLineStart (ch # rest) =
     (if atLineStart \<and> ch = 45 \<and> (case rest of [] \<Rightarrow> False | b # t \<Rightarrow> b = 32)
      then 8226 # bullets False rest
      else ch # bullets (isLineTerminator ch) rest)"

text \<open>
  \<open>/#{1,6}\s/\<close> at the start of a string: one to six hash signs and a white space. When
  more than six hash signs stand there, the expression does not match at this position.
\<close>

definition heading_mark :: "jsstring \<Rightarrow> (jsstring \<times> jsstring) option" where
  "heading_mark s =
     (let hashes = takeWhile (\<lambda>ch. ch = 35) s in
      if 1 \<le> length hashes \<and> length hashes \<le> 6
      then (case dropWhile (\<lambda>ch. ch = 35) s of
              [] \<Rightarrow> None
            | ch # rest \<Rightarrow> if isSpace ch then Some ([], rest) else None)
      else None)"

definition line_break :: "jsstring \<Rightarrow> (jsstring \<times> jsstring) option" where
  "line_break s = (case s of [] \<Rightarrow> None | ch # rest \<Rightarrow> if ch = 10 then Some (str ''<br>'', rest) else None)"

definition cleanMarkdown :: "jsstring \<Rightarrow> jsstring" where
  "cleanMarkdown text =
     replace_global line_break
       (replace_global heading_mark
         (bullets True
           (replace_global (delimited [96] (str ''<code>'') (str ''</code>''))
             (replace_global (delimited [42] (str ''<em>'') (str ''</em>''))
               (replace_global (delimited [42, 42] (str ''<strong>'') (str ''</strong>''))
                 text)))))"

subsection \<open>refineStep\<close>

text \<open>
  What \<open>await openai.chat.completions.create(...)\<close> comes back with: a completion, or a
  thrown value. A completion is its list of choices; the message of a choice and the content
  of a message may be absent (\<open>message?.content?.trim()\<close>).

  A thrown value is any JavaScript value. The \<open>catch\<close> block of \<open>refineStep\<close> looks at it
  through \<open>error instanceof Error\<close>, through \<open>error.message\<close> written into a template literal,
  and through \<open>String(error)\<close>, and each of the three can throw in turn: reading \<open>message\<close>
  runs a getter, writing it into the literal converts it to a string (a symbol, or an object
  whose \<open>toString\<close> throws, has no conversion), \<open>String(error)\<close> converts the value itself
  (an object without prototype has no conversion), and \<open>instanceof\<close> walks the prototype
  chain (a proxy can throw there). A thrown value is modelled by what these observations
  give:
  \<^item> \<open>ErrorObject r\<close>: an instance of \<open>Error\<close>; \<open>r\<close> is what \<open>error.message\<close> gives in the
    template literal, the string (\<open>Inr\<close>) or the value thrown on the way (\<open>Inl\<close>);
  \<^item> \<open>OtherValue r\<close>: not an instance of \<open>Error\<close>; \<open>r\<close> is what \<open>String(error)\<close> gives;
  \<^item> \<open>Untestable t\<close>: a value on which \<open>instanceof Error\<close> throws \<open>t\<close>.
\<close>

datatype thrown =
    ErrorObject "thrown + jsstring"
  | OtherValue "thrown + jsstring"
  | Untestable thrown

text \<open>An \<open>Error\<close> of the runtime or of the client library: its message is a string.\<close>

definition Error_with :: "jsstring \<Rightarrow> thrown" where
  "Error_with message = ErrorObject (Inr message)"

datatype chat_message = Message "jsstring option"

datatype choice = Choice "chat_message option"

record chat_request =
  model :: jsstring
  system_content :: jsstring
  user_content :: jsstring
  max_tokens :: nat

type_synonym generator = "chat_request \<Rightarrow> thrown + choice list"

definition refine_system_prompt :: jsstring where
  "refine_system_prompt = str (''You are an expert software architect helping to improve implementation plans. A user rejected a step, meaning they want a DIFFERENT approach, not more detail.\<newline>\<newline>GUIDELINES:\<newline>- Suggest a completely different approach or method for achieving the same goal\<newline>- Consider alternative technologies, patterns, or architectures\<newline>- Think of creative solutions the user might not have considered\<newline>- Keep it practical and implementable\<newline>- Format as plain text without markdown formatting (no ** or ## or bullets)\<newline>- Make it concise but complete (2-4 sentences)\<newline>- Focus on WHAT and HOW, be specific about files/commands when helpful'')"

definition refine_user_prompt :: "jsstring \<Rightarrow> jsstring \<Rightarrow> jsstring \<Rightarrow> jsstring \<Rightarrow> jsstring" where
  "refine_user_prompt originalStep taskContext otherSteps projectContext =
     str ''The user rejected this step from their implementation plan:\<newline>\<newline>REJECTED STEP: ''
     @ [34] @ originalStep @ [34]
     @ str ''\<newline>\<newline>CONTEXT - This was part of a plan for: '' @ [34] @ taskContext @ [34]
     @ str ''\<newline>\<newline>OTHER STEPS IN THE PLAN:\<newline>'' @ otherSteps
     @ str ''\<newline>\<newline>PROJECT CONTEXT: '' @ [34] @ projectContext @ [34]
     @ str ''\<newline>\<newline>The user wants a different approach for this step. Suggest an alternative way to accomplish the same goal. Avoid markdown formatting - use plain text only.''"

text \<open>
  The message of the \<open>TypeError\<close> that reading \<open>.message\<close> of \<open>undefined\<close> throws in the
  engine of the extension host, when the completion has no choice.
\<close>

definition no_choice_message :: jsstring where
  "no_choice_message = str ''Cannot read properties of undefined (reading '' @ [39] @ str ''message'' @ [39] @ str '')''"

text \<open>
  The request that \<open>refineStep\<close> sends: \<open>otherSteps\<close> numbers all the steps, leaves out the
  one at \<open>stepIndex\<close> and joins the rest with line feeds. The temperature of the request
  (0.4) is not part of the model of the request.
\<close>

definition refine_request :: "jsstring \<Rightarrow> jsstring list \<Rightarrow> int \<Rightarrow> jsstring \<Rightarrow> jsstring \<Rightarrow> chat_request" where
  "refine_request originalStep allSteps stepIndex taskContext projectContext =
     (let otherSteps =
            join [10]
              (map snd
                (filter (\<lambda>(idx, line). int idx \<noteq> stepIndex)
                  (List.enumerate 0
                    (map (\<lambda>(idx, step). str ''Step '' @ decimal (idx + 1) @ str '': '' @ step)
                      (List.enumerate 0 allSteps)))))
      in \<lparr>model = str ''gpt-4o'',
          system_content = refine_system_prompt,
          user_content = refine_user_prompt originalStep taskContext otherSteps projectContext,
          max_tokens = 300\<rparr>)"

text \<open>
  \<open>response.choices[0].message?.content?.trim() || "Failed to refine step."\<close>, for a
  completion that has a first choice.
\<close>

definition refined_text :: "choice \<Rightarrow> jsstring" where
  "refined_text first =
     (case first of
        Choice None \<Rightarrow> str ''Failed to refine step.''
      | Choice (Some (Message None)) \<Rightarrow> str ''Failed to refine step.''
      | Choice (Some (Message (Some text))) \<Rightarrow>
          (if trim text = [] then str ''Failed to refine step.'' else trim text))"

text \<open>
  The \<open>try\<close> block: the value it returns, or the value thrown in it. With no choice in the
  completion, \<open>response.choices[0].message\<close> throws a \<open>TypeError\<close>.
\<close>

definition refineStep_try ::
  "generator \<Rightarrow> jsstring \<Rightarrow> jsstring list \<Rightarrow> int \<Rightarrow> jsstring \<Rightarrow> jsstring \<Rightarrow> thrown + jsstring" where
  "refineStep_try create originalStep allSteps stepIndex taskContext projectContext =
     (case create (refine_request originalStep allSteps stepIndex taskContext projectContext) of
        Inl e \<Rightarrow> Inl e
      | Inr choices \<Rightarrow>
          (case choices of
             [] \<Rightarrow> Inl (Error_with no_choice_message)
           | first # others \<Rightarrow> Inr (cleanMarkdown (refined_text first))))"

text \<open>
  \<open>error instanceof Error ? error.message : String(error)\<close>, as the template literal of the
  \<open>catch\<close> block evaluates it: the string, or the value that the evaluation throws.
\<close>

definition describe :: "thrown \<Rightarrow> thrown + jsstring" where
  "describe e =
     (case e of
        ErrorObject message \<Rightarrow> message
      | OtherValue converted \<Rightarrow> converted
      | Untestable t \<Rightarrow> Inl t)"

text \<open>
  \<open>refineStep\<close>: the \<open>try\<close> block with its \<open>catch\<close>. The result is \<open>Inr\<close> when the function
  returns a string and \<open>Inl\<close> when it throws, that is, when the promise it returns is
  rejected: nothing catches what the \<open>catch\<close> block throws. The \<open>console.error\<close> of the
  \<open>catch\<close> block writes to the log of the extension host, which is not part of the model.
\<close>

definition refineStep ::
  "generator \<Rightarrow> jsstring \<Rightarrow> jsstring list \<Rightarrow> int \<Rightarrow> jsstring \<Rightarrow> jsstring \<Rightarrow> thrown + jsstring" where
  "refineStep create originalStep allSteps stepIndex taskContext projectContext =
     (case refineStep_try create originalStep allSteps stepIndex taskContext projectContext of
        Inr refined \<Rightarrow> Inr refined
      | Inl e \<Rightarrow>
          (case describe e of
             Inr description \<Rightarrow> Inr (str ''Error generating alternative: '' @ description)
           | Inl t \<Rightarrow> Inl t))"

section \<open>Numbers of the webview script\<close>

text \<open>
  A JavaScript number is an IEEE 754 double. A finite double is modelled by the rational
  number it denotes, and an arithmetic operation by the exact operation followed by rounding
  to the nearest double, ties to the even significand. The rounding below is the one of the
  normal range of doubles; the values of \<open>updateProgressDisplay\<close> lie in it: a quotient of
  two array lengths is 0 or at least 2 to the power -32, and the percentage is at most 100.
\<close>

text \<open>The binary exponent of a positive rational \<open>x\<close>: the \<open>k\<close> with \<open>2 powi k \<le> x < 2 powi (k + 1)\<close>.\<close>

definition ilog2 :: "rat \<Rightarrow> int" where
  "ilog2 x =
     (let (p, q) = quotient_of x;
          k = int (floorlog 2 (nat p)) - int (floorlog 2 (nat q))
      in if 2 powi k \<le> x then k else k - 1)"

definition round_half_even :: "rat \<Rightarrow> int" where
  "round_half_even z =
     (let f = \<lfloor>z\<rfloor> in
      if z - of_int f < 1 / 2 then f
      else if 1 / 2 < z - of_int f then f + 1
      else if even f then f else f + 1)"

text \<open>Rounding to a double: 53 significant bits.\<close>

definition to_double :: "rat \<Rightarrow> rat" where
  "to_double x =
     (if x = 0 then 0
      else (let e = ilog2 \<bar>x\<bar> - 52
            in of_int (round_half_even (x / 2 powi e)) * 2 powi e))"

text \<open>\<open>Math.round\<close>: the nearest integer, a tie going up.\<close>

definition Math_round :: "rat \<Rightarrow> int" where
  "Math_round y = \<lfloor>y + 1 / 2\<rfloor>"

section \<open>The progress display (webview.js)\<close>

text \<open>
  \<open>(acceptedCount / totalCount) * 100\<close>, rounded by \<open>Math.round\<close>, or 0 for an empty plan.
  The counts are array lengths, which are doubles exactly.
\<close>

definition progressPercent :: "nat \<Rightarrow> nat \<Rightarrow> int" where
  "progressPercent acceptedCount totalCount =
     (if 0 < totalCount
      then Math_round (to_double (to_double (of_nat acceptedCount / of_nat totalCount) * 100))
      else 0)"

text \<open>
  \<open>updateProgressDisplay\<close> reads the script's \<open>planState\<close> and writes the width of the
  progress bar (\<open>progressPercent\<close>) and the progress text (the two counts and
  \<open>progressPercent\<close>); the page is taken to have both elements. The result is what is
  shown: the counts and the percentage.
\<close>

definition updateProgressDisplay :: "PlanState \<Rightarrow> nat \<times> nat \<times> int" where
  "updateProgressDisplay st =
     (let acceptedCount = length (filter (\<lambda>s. status s = Some accepted) (steps st));
          totalCount = length (steps st)
      in (acceptedCount, totalCount, progressPercent acceptedCount totalCount))"

text \<open>
  The memory of the webview script: its mirror of the plan and what the progress display
  shows. \<open>updateUI\<close> runs on every \<open>stateUpdated\<close> message: it replaces the mirror, rebuilds
  the cards (not modelled) and calls \<open>updateProgressDisplay\<close>. It returns early when the
  page has no element of class \<open>steps-container\<close>; the page (\<open>webview.html\<close>) is taken to
  have one, as it is taken to have the two progress elements.
\<close>

record webview =
  mirror :: PlanState
  progress :: "nat \<times> nat \<times> int"

definition updateUI :: "PlanState \<Rightarrow> webview \<Rightarrow> webview" where
  "updateUI newState w = \<lparr>mirror = newState, progress = updateProgressDisplay newState\<rparr>"

section \<open>A small plan and a run, for concrete instances\<close>

definition demo_plan :: controller where
  "demo_plan = createPlanState (str ''Add JWT auth'') 0
     [(str ''a'', str ''Install the dependencies''),
      (str ''b'', str ''Create the user model''),
      (str ''c'', str ''Add the login route'')]"

definition demo_intents :: "(int \<times> jsstring \<times> PlanMessage) list" where
  "demo_intents =
     [(1, str ''d'', addStep (Some (str ''a'')) (str ''New plan step.'')),
      (2, [], reorderSteps [str ''c'', str ''a'', str ''d'', str ''b'']),
      (3, [], deleteStep (str ''a''))]"

text \<open>The plan after step \<open>a\<close> has been rejected, and a generator whose call fails.\<close>

definition demo_rejected :: controller where
  "demo_rejected = fst (onDidReceiveMessage 1 [] (rejectStep (str ''a'')) demo_plan)"

definition failing_generator :: generator where
  "failing_generator request = Inl (Error_with (str ''401 Incorrect API key provided''))"



text \<open>A generated plan text: an introduction and two steps.\<close>

definition demo_text :: jsstring where
  "demo_text = str ''Here is the plan.\<newline>''
     @ str ''Step 1:'' @ str '' '' @ str ''Install the dependencies now'' @ str ''\<newline>''
     @ str ''step  22:'' @ str ''  '' @ str ''Create the user model file'' @ str '' \<newline>''"

text \<open>The plan with step \<open>a\<close> accepted, as the webview receives it, and the webview before its first update.\<close>

definition demo_accepted :: PlanState where
  "demo_accepted = planState (fst (onDidReceiveMessage 1 [] (acceptStep (str ''a'')) demo_plan))"

definition blank_webview :: webview where
  "blank_webview = \<lparr>mirror = \<lparr>steps = [], taskDescription = [], lastModified = 0\<rparr>, progress = (0, 0, 0)\<rparr>"

section \<open>Properties of the controller\<close>

lemma length_updateStepIndices [simp]: "length (updateStepIndices rs i h) = length h"
  by (induction rs arbitrary: i h) simp_all

lemma update_index_keeps:
  "step_id ((h[r := (h ! r)\<lparr>originalIndex := v\<rparr>]) ! q) = step_id (h ! q)"
  "content ((h[r := (h ! r)\<lparr>originalIndex := v\<rparr>]) ! q) = content (h ! q)"
  "status ((h[r := (h ! r)\<lparr>originalIndex := v\<rparr>]) ! q) = status (h ! q)"
proof -
  consider "r < length h" "q = r" | "r < length h" "q \<noteq> r" | "\<not> r < length h" by blast
  then show "step_id ((h[r := (h ! r)\<lparr>originalIndex := v\<rparr>]) ! q) = step_id (h ! q)"
    "content ((h[r := (h ! r)\<lparr>originalIndex := v\<rparr>]) ! q) = content (h ! q)"
    "status ((h[r := (h ! r)\<lparr>originalIndex := v\<rparr>]) ! q) = status (h ! q)"
    by (cases; simp add: list_update_beyond)+
qed

lemma updateStepIndices_keeps:
  "step_id (updateStepIndices rs i h ! q) = step_id (h ! q)"
  "content (updateStepIndices rs i h ! q) = content (h ! q)"
  "status (updateStepIndices rs i h ! q) = status (h ! q)"
  by (induction rs arbitrary: i h) (simp_all add: update_index_keeps)

lemma updateStepIndices_outside:
  "q \<notin> set rs \<Longrightarrow> updateStepIndices rs i h ! q = h ! q"
  by (induction rs arbitrary: i h) auto

lemma updateStepIndices_nth:
  "distinct rs \<Longrightarrow> \<forall>r\<in>set rs. r < length h \<Longrightarrow> k < length rs \<Longrightarrow>
   originalIndex (updateStepIndices rs i h ! (rs ! k)) = int (i + k) + 1"
proof (induction rs arbitrary: i h k)
  case Nil
  then show ?case by simp
next
  case (Cons r rs)
  show ?case
  proof (cases k)
    case 0
    with Cons.prems show ?thesis by (simp add: updateStepIndices_outside)
  next
    case (Suc j)
    with Cons.prems Cons.IH [of "h[r := (h ! r)\<lparr>originalIndex := int i + 1\<rparr>]" j "i + 1"]
    show ?thesis by simp
  qed
qed

lemma find_step_Some:
  "find_step c i = Some r \<Longrightarrow> r \<in> set (stepRefs c) \<and> step_id (deref c r) = i"
  by (auto simp: find_step_def find_Some_iff)

lemma find_step_None:
  "find_step c i = None \<longleftrightarrow> i \<notin> set (ids c)"
  by (auto simp: find_step_def find_None_iff ids_def planState_def)

lemma set_reordered: "set (List.map_filter (find_step c) newOrder) \<subseteq> set (stepRefs c)"
  by (auto simp: List.map_filter_def dest: find_step_Some)

lemma distinct_reordered:
  "distinct newOrder \<Longrightarrow> distinct (List.map_filter (find_step c) newOrder)"
proof (induction newOrder)
  case Nil
  then show ?case by (simp add: List.map_filter_simps)
next
  case (Cons i newOrder)
  show ?case
  proof (cases "find_step c i")
    case None
    with Cons show ?thesis by (simp add: List.map_filter_simps)
  next
    case (Some r)
    have "r \<notin> set (List.map_filter (find_step c) newOrder)"
    proof
      assume "r \<in> set (List.map_filter (find_step c) newOrder)"
      then obtain j where "j \<in> set newOrder" "find_step c j = Some r"
        by (auto simp: List.map_filter_def)
      with Some have "j = i" by (auto dest!: find_step_Some)
      with \<open>j \<in> set newOrder\<close> Cons.prems show False by simp
    qed
    with Some Cons show ?thesis by (simp add: List.map_filter_simps)
  qed
qed

lemma indices_after_update:
  assumes "distinct rs" "\<forall>r\<in>set rs. r < length h"
  shows "map (\<lambda>r. originalIndex (updateStepIndices rs 0 h ! r)) rs = map (\<lambda>k. int k + 1) [0..<length rs]"
proof (rule nth_equalityI)
  show "length (map (\<lambda>r. originalIndex (updateStepIndices rs 0 h ! r)) rs) = length (map (\<lambda>k. int k + 1) [0..<length rs])"
    by simp
next
  fix k assume "k < length (map (\<lambda>r. originalIndex (updateStepIndices rs 0 h ! r)) rs)"
  then have k: "k < length rs" by simp
  with updateStepIndices_nth [OF assms k, of 0]
  show "map (\<lambda>r. originalIndex (updateStepIndices rs 0 h ! r)) rs ! k = map (\<lambda>k. int k + 1) [0..<length rs] ! k"
    by simp
qed

lemma renumbered:
  assumes "distinct rs" "\<forall>r\<in>set rs. r < length h"
  shows "well_formed (c\<lparr>stepRefs := rs, objects := updateStepIndices rs 0 h\<rparr>)
       \<and> indices_fresh (c\<lparr>stepRefs := rs, objects := updateStepIndices rs 0 h\<rparr>)"
  using assms indices_after_update [OF assms]
  by (simp add: well_formed_def indices_fresh_def displayIndices_def planState_def deref_def
      list_all_iff comp_def)

lemma well_formed_bound: "well_formed c \<Longrightarrow> r \<in> set (stepRefs c) \<Longrightarrow> r < length (objects c)"
  by (simp add: well_formed_def list_all_iff)

lemma well_formed_distinct: "well_formed c \<Longrightarrow> distinct (stepRefs c)"
  by (simp add: well_formed_def)

lemma set_splice_in: "set (splice_in k x xs) = insert x (set xs)"
proof -
  have "set (take k xs) \<union> set (drop k xs) = set xs"
    by (metis append_take_drop_id set_append)
  then show ?thesis by (auto simp: splice_in_def)
qed

lemma distinct_splice_in: "distinct xs \<Longrightarrow> x \<notin> set xs \<Longrightarrow> distinct (splice_in k x xs)"
proof -
  assume d: "distinct xs" and x: "x \<notin> set xs"
  have "distinct (take k xs @ drop k xs)" using d by simp
  then have "distinct (take k xs)" "distinct (drop k xs)" "set (take k xs) \<inter> set (drop k xs) = {}"
    by (simp_all only: distinct_append)
  moreover have "x \<notin> set (take k xs)" "x \<notin> set (drop k xs)"
    using x by (auto dest: in_set_takeD in_set_dropD)
  ultimately show ?thesis by (simp add: splice_in_def)
qed

lemma insertStep_set: "set (insertStep afterId r c) = insert r (set (stepRefs c))"
  by (auto simp: insertStep_def set_splice_in split: option.splits)

lemma insertStep_distinct:
  assumes "well_formed c" shows "distinct (insertStep afterId (length (objects c)) c)"
proof -
  have "length (objects c) \<notin> set (stepRefs c)"
    using well_formed_bound [OF assms] by blast
  with well_formed_distinct [OF assms] show ?thesis
    by (auto simp: insertStep_def distinct_splice_in split: option.splits)
qed

lemma dispatch_structural:
  assumes "well_formed c" "structural m" "repeats_no_id m"
  shows "fst (dispatch uuid m c) \<and> well_formed (fst (snd (dispatch uuid m c)))
       \<and> indices_fresh (fst (snd (dispatch uuid m c)))"
proof (cases m)
  case (reorderSteps newOrder)
  let ?rs = "List.map_filter (find_step c) newOrder"
  have "distinct ?rs" using assms(3) reorderSteps by (simp add: distinct_reordered)
  moreover have "\<forall>r\<in>set ?rs. r < length (objects c)"
    using set_reordered [of c newOrder] well_formed_bound [OF assms(1)] by blast
  ultimately show ?thesis using reorderSteps renumbered [of ?rs "objects c" c]
    by (simp add: Let_def)
next
  case (deleteStep i)
  let ?rs = "filter (\<lambda>r. step_id (deref c r) \<noteq> i) (stepRefs c)"
  have "distinct ?rs" using well_formed_distinct [OF assms(1)] by simp
  moreover have "\<forall>r\<in>set ?rs. r < length (objects c)"
    using well_formed_bound [OF assms(1)] by simp
  ultimately show ?thesis using deleteStep renumbered [of ?rs "objects c" c]
    by (simp add: Let_def)
next
  case (addStep afterId new)
  let ?rs = "insertStep afterId (length (objects c)) c"
  let ?h = "objects c @ [\<lparr>step_id = uuid, content = new, status = Some edited, originalIndex = -1\<rparr>]"
  have "distinct ?rs" by (rule insertStep_distinct [OF assms(1)])
  moreover have "\<forall>r\<in>set ?rs. r < length ?h"
    using well_formed_bound [OF assms(1)] by (auto simp: insertStep_set less_Suc_eq)
  ultimately show ?thesis using addStep renumbered [of ?rs ?h c]
    by (simp add: Let_def)
qed (use assms(2) in simp_all)

lemma handler_state:
  "fst (onDidReceiveMessage now uuid m c) =
     (if fst (dispatch uuid m c) then (fst (snd (dispatch uuid m c)))\<lparr>modified := now\<rparr>
      else fst (snd (dispatch uuid m c)))"
  by (simp add: onDidReceiveMessage_def Let_def split: prod.splits)

lemma well_formed_modified [simp]: "well_formed (c\<lparr>modified := t\<rparr>) = well_formed c"
  by (simp add: well_formed_def)

lemma indices_fresh_modified [simp]: "indices_fresh (c\<lparr>modified := t\<rparr>) = indices_fresh c"
  by (simp add: indices_fresh_def displayIndices_def planState_def deref_def comp_def)

lemma handler_structural:
  assumes "well_formed c" "structural m" "repeats_no_id m"
  shows "well_formed (fst (onDidReceiveMessage now uuid m c))
       \<and> indices_fresh (fst (onDidReceiveMessage now uuid m c))"
  using dispatch_structural [OF assms, of uuid] by (simp add: handler_state)

lemma run_structural:
  assumes "well_formed c" "\<forall>x\<in>set ms. structural (snd (snd x)) \<and> repeats_no_id (snd (snd x))"
  shows "well_formed (run ms c) \<and> (ms \<noteq> [] \<longrightarrow> indices_fresh (run ms c))"
  using assms
proof (induction ms arbitrary: c)
  case Nil
  then show ?case by simp
next
  case (Cons x ms)
  obtain now uuid m where x: "x = (now, uuid, m)" by (cases x) auto
  let ?c = "fst (onDidReceiveMessage now uuid m c)"
  have step: "well_formed ?c \<and> indices_fresh ?c"
    using Cons.prems x by (intro handler_structural) auto
  have "well_formed (run ms ?c) \<and> (ms \<noteq> [] \<longrightarrow> indices_fresh (run ms ?c))"
    using Cons.prems step by (intro Cons.IH) auto
  with step x show ?case by (cases ms) auto
qed

lemma well_formed_createPlanState: "well_formed (createPlanState taskText now rawSteps)"
  by (simp add: well_formed_def createPlanState_def list_all_iff)

subsection \<open>C1: display indices after structural intents\<close>

text \<open>
  Claim C1. Start from a plan whose array holds no object twice; every plan that the code
  creates is one (\<open>well_formed_createPlanState\<close>). Apply any sequence of \<open>addStep\<close>,
  \<open>deleteStep\<close> and \<open>reorderSteps\<close> messages whose reorder lists name no id twice: the
  precondition of reorder is a permutation of existing ids, and the webview sends the ids of
  its mirror after a swap or a move. Then immediately after each message of the sequence,
  the step at position \<open>k\<close> of the array has \<open>originalIndex = k + 1\<close>, for every position \<open>k\<close>.
\<close>

theorem display_index_after_structural_intents:
  assumes "well_formed c"
    and "\<forall>x\<in>set ms. structural (snd (snd x)) \<and> repeats_no_id (snd (snd x))"
    and "0 < n" and "n \<le> length ms"
    and "k < length (steps (planState (run (take n ms) c)))"
  shows "originalIndex (steps (planState (run (take n ms) c)) ! k) = int k + 1"
proof -
  have "\<forall>x\<in>set (take n ms). structural (snd (snd x)) \<and> repeats_no_id (snd (snd x))"
    using assms(2) by (auto dest: in_set_takeD)
  moreover have "take n ms \<noteq> []" using assms(3,4) by auto
  ultimately have "indices_fresh (run (take n ms) c)"
    using run_structural [OF assms(1), of "take n ms"] by blast
  then have "map originalIndex (steps (planState (run (take n ms) c))) ! k = map (\<lambda>k. int k + 1) [0..<length (stepRefs (run (take n ms) c))] ! k"
    by (simp add: indices_fresh_def displayIndices_def)
  moreover have "length (steps (planState (run (take n ms) c))) = length (stepRefs (run (take n ms) c))"
    by (simp add: planState_def)
  ultimately show ?thesis using assms(5) by simp
qed

theorem display_index_after_structural_intents_witness:
  "well_formed demo_plan
   \<and> list_all (\<lambda>x. structural (snd (snd x)) \<and> repeats_no_id (snd (snd x))) demo_intents
   \<and> ids (run (take 2 demo_intents) demo_plan) = [str ''c'', str ''a'', str ''d'', str ''b'']
   \<and> originalIndex (steps (planState (run (take 2 demo_intents) demo_plan)) ! 3) = 4"
proof -
  have 1: "well_formed demo_plan" by code_simp
  have 2: "list_all (\<lambda>x. structural (snd (snd x)) \<and> repeats_no_id (snd (snd x))) demo_intents"
    by code_simp
  have 3: "(0::nat) < 2" "2 \<le> length demo_intents" by code_simp+
  have 4: "ids (run (take 2 demo_intents) demo_plan) = [str ''c'', str ''a'', str ''d'', str ''b'']"
    by code_simp
  have 5: "3 < length (steps (planState (run (take 2 demo_intents) demo_plan)))"
    by code_simp
  from 2 have 6: "\<forall>x\<in>set demo_intents. structural (snd (snd x)) \<and> repeats_no_id (snd (snd x))"
    by (simp only: list_all_iff)
  from display_index_after_structural_intents [OF 1 6 3 5] 1 2 4 show ?thesis by simp
qed

text \<open>
  Why the reorder lists must name no id twice: \<open>reorderSteps\<close> with the list \<open>[a, a]\<close> would
  put the object of step \<open>a\<close> into the array twice, and \<open>updateStepIndices\<close> writes 1 and
  then 2 to that one object.
\<close>

lemma reorder_repeated_id_writes_one_object_twice:
  "displayIndices (run [(1, [], reorderSteps [str ''a'', str ''a''])] demo_plan) = [2, 2]"
  by code_simp

lemma ids_via_refs: "ids c = map (\<lambda>r. step_id (deref c r)) (stepRefs c)"
  by (simp add: ids_def planState_def)

lemma reordered_ids:
  "map (\<lambda>r. step_id (deref c r)) (List.map_filter (find_step c) newOrder)
     = filter (\<lambda>i. i \<in> set (ids c)) newOrder"
proof (induction newOrder)
  case Nil
  show ?case by (simp add: List.map_filter_simps)
next
  case (Cons i newOrder)
  show ?case
  proof (cases "find_step c i")
    case None
    then have "i \<notin> set (ids c)" by (simp add: find_step_None)
    with None Cons show ?thesis by (simp add: List.map_filter_simps)
  next
    case (Some r)
    then have "i \<in> set (ids c)" using find_step_None [of c i] by simp
    with Some Cons find_step_Some [OF Some] show ?thesis
      by (simp add: List.map_filter_simps)
  qed
qed

lemma deref_renumbered:
  "step_id (deref (c\<lparr>stepRefs := rs, objects := updateStepIndices rs 0 h\<rparr>) q) = step_id (h ! q)"
  "content (deref (c\<lparr>stepRefs := rs, objects := updateStepIndices rs 0 h\<rparr>) q) = content (h ! q)"
  "status (deref (c\<lparr>stepRefs := rs, objects := updateStepIndices rs 0 h\<rparr>) q) = status (h ! q)"
  by (simp_all add: deref_def updateStepIndices_keeps)

lemma deref_modified [simp]: "deref (c\<lparr>modified := t\<rparr>) = deref c"
  by (simp add: deref_def fun_eq_iff)

lemma ids_modified [simp]: "ids (c\<lparr>modified := t\<rparr>) = ids c"
  by (simp add: ids_via_refs)

lemma displayIndices_modified [simp]: "displayIndices (c\<lparr>modified := t\<rparr>) = displayIndices c"
  by (simp add: displayIndices_def planState_def)

lemma handler_reorder:
  "fst (onDidReceiveMessage now uuid (reorderSteps newOrder) c) =
     c\<lparr>stepRefs := List.map_filter (find_step c) newOrder,
       objects := updateStepIndices (List.map_filter (find_step c) newOrder) 0 (objects c),
       modified := now\<rparr>"
  by (simp add: onDidReceiveMessage_def Let_def)

subsection \<open>C4: reorder\<close>

text \<open>
  Claim C4. For every plan and every list \<open>newOrder\<close>, after \<open>reorderSteps newOrder\<close> the ids
  of the steps are the ids of \<open>newOrder\<close> that exist in the plan, in the order of \<open>newOrder\<close>;
  an id absent from \<open>newOrder\<close> is absent from the result; every step of the result is one of
  the existing step objects, with its id, content and status untouched; when \<open>newOrder\<close>
  repeats no id the display indices are \<open>1, 2, ...\<close>; and for three steps \<open>[a, b, d]\<close> the
  order \<open>[d, a, b]\<close> yields the ids \<open>[d, a, b]\<close> with display indices \<open>[1, 2, 3]\<close>.
\<close>

theorem reorder_projects_steps:
  "let c' = fst (onDidReceiveMessage now uuid (reorderSteps newOrder) c) in
     ids c' = filter (\<lambda>i. i \<in> set (ids c)) newOrder
     \<and> (\<forall>i. i \<notin> set newOrder \<longrightarrow> i \<notin> set (ids c'))
     \<and> set (stepRefs c') \<subseteq> set (stepRefs c)
     \<and> (\<forall>r. step_id (deref c' r) = step_id (deref c r)
            \<and> content (deref c' r) = content (deref c r)
            \<and> status (deref c' r) = status (deref c r))
     \<and> (well_formed c \<and> distinct newOrder \<longrightarrow>
          displayIndices c' = map (\<lambda>k. int k + 1) [0..<length (ids c')])
     \<and> (well_formed c \<and> ids c = [a, b, d] \<and> distinct [a, b, d] \<and> newOrder = [d, a, b] \<longrightarrow>
          ids c' = [d, a, b] \<and> displayIndices c' = [1, 2, 3])"
proof -
  define c' where "c' = fst (onDidReceiveMessage now uuid (reorderSteps newOrder) c)"
  let ?rs = "List.map_filter (find_step c) newOrder"
  have c': "c' = c\<lparr>stepRefs := ?rs, objects := updateStepIndices ?rs 0 (objects c), modified := now\<rparr>"
    by (simp add: c'_def handler_reorder)
  have fields: "step_id (deref c' r) = step_id (deref c r) \<and> content (deref c' r) = content (deref c r)
            \<and> status (deref c' r) = status (deref c r)" for r
    by (simp add: c' deref_def updateStepIndices_keeps)
  have refs: "stepRefs c' = ?rs" by (simp add: c')
  have 1: "ids c' = filter (\<lambda>i. i \<in> set (ids c)) newOrder"
    using reordered_ids [of c newOrder] by (simp add: ids_via_refs refs fields)
  have 2: "\<forall>i. i \<notin> set newOrder \<longrightarrow> i \<notin> set (ids c')" by (simp add: 1)
  have 3: "set (stepRefs c') \<subseteq> set (stepRefs c)" using set_reordered [of c newOrder] by (simp add: refs)
  have 5: "displayIndices c' = map (\<lambda>k. int k + 1) [0..<length (ids c')]"
    if "well_formed c" "distinct newOrder"
  proof -
    have "indices_fresh c'"
      using dispatch_structural [of c "reorderSteps newOrder" uuid] that
      by (simp add: c'_def handler_state)
    then show ?thesis by (simp add: indices_fresh_def ids_via_refs)
  qed
  have 6: "ids c' = [d, a, b] \<and> displayIndices c' = [1, 2, 3]"
    if "well_formed c" "ids c = [a, b, d]" "distinct [a, b, d]" "newOrder = [d, a, b]"
  proof -
    have i: "ids c' = [d, a, b]" using that 1 by auto
    have "distinct newOrder" using that by auto
    from 5 [OF that(1) this] i have "displayIndices c' = [1, 2, 3]" by simp
    with i show ?thesis by blast
  qed
  from 1 2 3 fields 5 6 show ?thesis unfolding c'_def [symmetric] Let_def by blast
qed

theorem reorder_projects_steps_witness:
  "well_formed demo_plan
   \<and> ids demo_plan = [str ''a'', str ''b'', str ''c'']
   \<and> distinct [str ''a'', str ''b'', str ''c'']
   \<and> ids (fst (onDidReceiveMessage 5 [] (reorderSteps [str ''c'', str ''a'', str ''b'']) demo_plan))
       = [str ''c'', str ''a'', str ''b'']
   \<and> displayIndices (fst (onDidReceiveMessage 5 [] (reorderSteps [str ''c'', str ''a'', str ''b'']) demo_plan))
       = [1, 2, 3]"
proof -
  have h: "well_formed demo_plan" "ids demo_plan = [str ''a'', str ''b'', str ''c'']"
    "distinct [str ''a'', str ''b'', str ''c'']"
    by code_simp+
  from reorder_projects_steps [of 5 "[]" "[str ''c'', str ''a'', str ''b'']" demo_plan
      "str ''a''" "str ''b''" "str ''c''"] h
  show ?thesis unfolding Let_def by blast
qed


lemma dispatch_not_updated:
  "\<not> fst (dispatch uuid m c) \<Longrightarrow> fst (snd (dispatch uuid m c)) = c"
  by (cases m) (auto simp: Let_def split: option.splits if_splits)

lemma handler_cases:
  "onDidReceiveMessage now uuid m c =
     (if fst (dispatch uuid m c)
      then ((fst (snd (dispatch uuid m c)))\<lparr>modified := now\<rparr>,
            snd (snd (dispatch uuid m c))
              @ [PostMessage (stateUpdated (planState ((fst (snd (dispatch uuid m c)))\<lparr>modified := now\<rparr>)))])
      else (fst (snd (dispatch uuid m c)), snd (snd (dispatch uuid m c))))"
  by (simp add: onDidReceiveMessage_def Let_def split: prod.splits)

subsection \<open>C5: the edit that changes nothing, and the broadcast after a change\<close>

text \<open>
  Claim C5. An \<open>editStep\<close> whose content is the current content of the step it finds leaves
  the whole memory as it is, \<open>lastModified\<close> included, and posts nothing. Conversely,
  whenever a message leaves the memory different in anything but \<open>lastModified\<close>, the
  handler has set \<open>lastModified\<close> to the current time and its last effect is the
  \<open>stateUpdated\<close> message with the full new state; the end of a refine task does the same.
\<close>

theorem noop_edit_is_silent_and_changes_are_broadcast:
  "(find_step c i = Some r \<and> content (deref c r) = new \<longrightarrow>
      onDidReceiveMessage now uuid (editStep i new) c = (c, []))
   \<and> (onDidReceiveMessage now uuid m c = (c', es) \<and> c'\<lparr>modified := modified c\<rparr> \<noteq> c \<longrightarrow>
        modified c' = now \<and> es \<noteq> [] \<and> last es = PostMessage (stateUpdated (planState c')))
   \<and> (refineFinished now q text cl = (c'', es') \<longrightarrow>
        modified c'' = now \<and> es' = [PostMessage (stateUpdated (planState c''))])"
proof -
  have 1: "onDidReceiveMessage now uuid (editStep i new) c = (c, [])"
    if "find_step c i = Some r \<and> content (deref c r) = new"
    using that by (simp add: onDidReceiveMessage_def)
  have 2: "modified c' = now \<and> es \<noteq> [] \<and> last es = PostMessage (stateUpdated (planState c'))"
    if a: "onDidReceiveMessage now uuid m c = (c', es) \<and> c'\<lparr>modified := modified c\<rparr> \<noteq> c"
  proof -
    have u: "fst (dispatch uuid m c)"
    proof (rule ccontr)
      assume n: "\<not> fst (dispatch uuid m c)"
      with a dispatch_not_updated [OF n] have "c' = c" by (simp add: handler_cases)
      with a show False by simp
    qed
    with a show ?thesis by (auto simp: handler_cases)
  qed
  have 3: "modified c'' = now \<and> es' = [PostMessage (stateUpdated (planState c''))]"
    if "refineFinished now q text cl = (c'', es')"
    using that by (auto simp: refineFinished_def Let_def)
  from 1 2 3 show ?thesis by blast
qed

theorem noop_edit_is_silent_and_changes_are_broadcast_witness:
  "find_step demo_plan (str ''b'') = Some 1
   \<and> content (deref demo_plan 1) = str ''Create the user model''
   \<and> onDidReceiveMessage 9 [] (editStep (str ''b'') (str ''Create the user model'')) demo_plan
       = (demo_plan, [])
   \<and> fst (onDidReceiveMessage 9 [] (acceptStep (str ''b'')) demo_plan)\<lparr>modified := modified demo_plan\<rparr>
       \<noteq> demo_plan
   \<and> modified (fst (onDidReceiveMessage 9 [] (acceptStep (str ''b'')) demo_plan)) = 9
   \<and> last (snd (onDidReceiveMessage 9 [] (acceptStep (str ''b'')) demo_plan))
       = PostMessage (stateUpdated (planState (fst (onDidReceiveMessage 9 [] (acceptStep (str ''b'')) demo_plan))))
   \<and> modified (fst (refineFinished 9 1 (str ''x'') demo_plan)) = 9"
proof -
  have h1: "find_step demo_plan (str ''b'') = Some 1"
    "content (deref demo_plan 1) = str ''Create the user model''"
    by code_simp+
  have h2: "fst (onDidReceiveMessage 9 [] (acceptStep (str ''b'')) demo_plan)\<lparr>modified := modified demo_plan\<rparr>
       \<noteq> demo_plan"
    by code_simp
  have h3: "onDidReceiveMessage 9 [] (acceptStep (str ''b'')) demo_plan
     = (fst (onDidReceiveMessage 9 [] (acceptStep (str ''b'')) demo_plan),
        snd (onDidReceiveMessage 9 [] (acceptStep (str ''b'')) demo_plan))"
    by simp
  have h4: "refineFinished 9 1 (str ''x'') demo_plan
     = (fst (refineFinished 9 1 (str ''x'') demo_plan), snd (refineFinished 9 1 (str ''x'') demo_plan))"
    by simp
  from noop_edit_is_silent_and_changes_are_broadcast
    [of demo_plan "str ''b''" 1 "str ''Create the user model''" 9 "[]" "acceptStep (str ''b'')"
      "fst (onDidReceiveMessage 9 [] (acceptStep (str ''b'')) demo_plan)"
      "snd (onDidReceiveMessage 9 [] (acceptStep (str ''b'')) demo_plan)"
      1 "str ''x''" demo_plan
      "fst (refineFinished 9 1 (str ''x'') demo_plan)" "snd (refineFinished 9 1 (str ''x'') demo_plan)"]
    h1 h2 h3 h4
  show ?thesis by blast
qed


subsection \<open>C6: intents that name a missing step\<close>

text \<open>
  \<open>acceptStep\<close>, \<open>rejectStep\<close> and \<open>editStep\<close> guard on the step they find: with an id that
  is not in the plan they change nothing and post nothing.
\<close>

lemma lookup_miss_is_silent:
  assumes "i \<notin> set (ids c)" and "m \<in> {acceptStep i, rejectStep i, editStep i new}"
  shows "onDidReceiveMessage now uuid m c = (c, [])"
proof -
  have "find_step c i = None" using assms(1) by (simp add: find_step_None)
  with assms(2) show ?thesis by (auto simp: onDidReceiveMessage_def)
qed

text \<open>
  Claim C6 at \<open>deleteStep\<close>: the case sets \<open>updated = true\<close> without looking the id up. With
  the id \<open>zz\<close>, which no step of the plan carries, the steps stay as they are, but
  \<open>lastModified\<close> moves from 0 to the current time 7 and a \<open>stateUpdated\<close> message is
  posted.
\<close>

theorem delete_of_missing_id_is_not_silent:
  "str ''zz'' \<notin> set (ids demo_plan)
   \<and> modified demo_plan = 0
   \<and> onDidReceiveMessage 7 [] (deleteStep (str ''zz'')) demo_plan
       = (demo_plan\<lparr>modified := 7\<rparr>,
          [PostMessage (stateUpdated (planState (demo_plan\<lparr>modified := 7\<rparr>)))])"
  by code_simp


lemma findIndex_less: "findIndex p xs = Some k \<Longrightarrow> k < length xs"
  by (induction xs arbitrary: k) (auto split: if_splits)











subsection \<open>C7: add\<close>




lemma assign_refs [simp]: "stepRefs (assign r f c) = stepRefs c"
  by (simp add: assign_def)

lemma assign_step_id:
  assumes "\<And>s. step_id (f s) = step_id s"
  shows "step_id (deref (assign r f c) q) = step_id (deref c q)"
proof (cases "r < length (objects c)")
  case True
  then show ?thesis using assms by (cases "q = r") (simp_all add: assign_def deref_def)
next
  case False
  then show ?thesis by (simp add: assign_def deref_def list_update_beyond)
qed

lemma assign_ids:
  assumes "\<And>s. step_id (f s) = step_id s"
  shows "ids (assign r f c) = ids c"
  by (simp add: ids_via_refs assign_step_id [OF assms])





subsection \<open>C8: ids\<close>




section \<open>Properties of refineStep and of the refine task\<close>


text \<open>A global replacement whose expression matches nowhere copies the text.\<close>

lemma replace_global_no_match:
  assumes "\<And>t. set t \<subseteq> A \<Longrightarrow> m t = None" and "set s \<subseteq> A"
  shows "replace_global m s = s"
  using assms(2)
proof (induction s)
  case Nil
  from assms(1) [of "[]"] show ?case by simp
next
  case (Cons ch t)
  from assms(1) [of "ch # t"] Cons.prems have "m (ch # t) = None" by simp
  with Cons show ?case by simp
qed

lemma delimited_needs_mark: "d \<noteq> [] \<Longrightarrow> hd d \<notin> set t \<Longrightarrow> delimited d opening closing t = None"
  by (cases d; cases t) (simp_all add: delimited_def)

lemma heading_mark_needs_hash: "35 \<notin> set t \<Longrightarrow> heading_mark t = None"
  by (cases t) (simp_all add: heading_mark_def)

lemma line_break_needs_line_feed: "10 \<notin> set t \<Longrightarrow> line_break t = None"
  by (cases t) (simp_all add: line_break_def)

lemma bullets_needs_hyphen: "45 \<notin> set t \<Longrightarrow> bullets b t = t"
  by (induction t arbitrary: b) simp_all

text \<open>
  Text without asterisk, backquote, hyphen, hash sign and line feed is left as it is.
\<close>

lemma cleanMarkdown_plain:
  assumes "set t \<inter> {42, 96, 45, 35, 10} = {}"
  shows "cleanMarkdown t = t"
proof -
  define A :: "code_unit set" where "A = - {42, 96, 45, 35, 10}"
  have t: "set t \<subseteq> A" using assms by (auto simp: A_def)
  have 1: "replace_global (delimited [42, 42] (str ''<strong>'') (str ''</strong>'')) t = t"
    by (rule replace_global_no_match [OF _ t]) (rule delimited_needs_mark, auto simp: A_def)
  have 2: "replace_global (delimited [42] (str ''<em>'') (str ''</em>'')) t = t"
    by (rule replace_global_no_match [OF _ t]) (rule delimited_needs_mark, auto simp: A_def)
  have 3: "replace_global (delimited [96] (str ''<code>'') (str ''</code>'')) t = t"
    by (rule replace_global_no_match [OF _ t]) (rule delimited_needs_mark, auto simp: A_def)
  have 4: "bullets True t = t"
    using t by (intro bullets_needs_hyphen) (auto simp: A_def)
  have 5: "replace_global heading_mark t = t"
    by (rule replace_global_no_match [OF _ t]) (rule heading_mark_needs_hash, auto simp: A_def)
  have 6: "replace_global line_break t = t"
    by (rule replace_global_no_match [OF _ t]) (rule line_break_needs_line_feed, auto simp: A_def)
  show ?thesis by (simp add: cleanMarkdown_def 1 2 3 4 5 6)
qed




lemma refineStep_cases:
  "create (refine_request originalStep allSteps stepIndex taskContext projectContext) = Inl e \<Longrightarrow>
     refineStep create originalStep allSteps stepIndex taskContext projectContext
       = (case describe e of
            Inr description \<Rightarrow> Inr (str ''Error generating alternative: '' @ description)
          | Inl t \<Rightarrow> Inl t)"
  "create (refine_request originalStep allSteps stepIndex taskContext projectContext) = Inr [] \<Longrightarrow>
     refineStep create originalStep allSteps stepIndex taskContext projectContext
       = Inr (str ''Error generating alternative: '' @ no_choice_message)"
  "create (refine_request originalStep allSteps stepIndex taskContext projectContext) = Inr (first # others) \<Longrightarrow>
     refineStep create originalStep allSteps stepIndex taskContext projectContext
       = Inr (cleanMarkdown (refined_text first))"
  by (simp_all add: refineStep_def refineStep_try_def describe_def Error_with_def)

subsection \<open>C9: what refineStep returns, and when it throws\<close>




lemma assign_at:
  "r < length (objects c) \<Longrightarrow> deref (assign r f c) r = f (deref c r)"
  by (simp add: assign_def deref_def)

subsection \<open>C3: the refine task after a failed call\<close>

text \<open>
  Claim C3, as amended. \<open>rejectStep\<close> on an existing step sets its status to \<open>rejected\<close>,
  posts the \<open>refining\<close> flash, starts the refine task and posts the state. When the generator
  call of that task fails, \<open>refineStep\<close> returns the text
  \<open>Error generating alternative: ...\<close>, and the task then replaces the content of the step by
  that text, sets the status to \<open>edited\<close> exactly as it does on success, and posts the
  state.
\<close>

theorem failed_refine_replaces_content_and_marks_edited:
  assumes "find_step c i = Some r" and "r < length (objects c)"
    and "onDidReceiveMessage t1 uuid (rejectStep i) c = (c1, es)"
    and "create (refine_request (content (deref c1 r)) (map (content \<circ> deref c1) (stepRefs c1))
           (indexOf (stepRefs c1) r) (task c1) projectContext) = Inl e"
    and "refineStep create (content (deref c1 r)) (map (content \<circ> deref c1) (stepRefs c1))
           (indexOf (stepRefs c1) r) (task c1) projectContext = Inr refined"
    and "r < length (objects cl)"
    and "refineFinished t2 r refined cl = (c2, es2)"
  shows "status (deref c1 r) = Some rejected
       \<and> es = [PostMessage (updateStepStatus i refining),
               StartRefine r (content (deref c1 r)) (map (content \<circ> deref c1) (stepRefs c1))
                 (indexOf (stepRefs c1) r),
               PostMessage (stateUpdated (planState c1))]
       \<and> (\<exists>description. describe e = Inr description
             \<and> refined = str ''Error generating alternative: '' @ description)
       \<and> content (deref c2 r) = refined
       \<and> status (deref c2 r) = Some edited
       \<and> es2 = [PostMessage (stateUpdated (planState c2))]"
proof -
  let ?c = "assign r (\<lambda>s. s\<lparr>status := Some rejected\<rparr>) c"
  have c1: "c1 = ?c\<lparr>modified := t1\<rparr>"
    and es: "es = [PostMessage (updateStepStatus i refining),
               StartRefine r (content (deref ?c r)) (map (content \<circ> deref ?c) (stepRefs ?c))
                 (indexOf (stepRefs ?c) r),
               PostMessage (stateUpdated (planState (?c\<lparr>modified := t1\<rparr>)))]"
    using assms(1,3) by (auto simp: onDidReceiveMessage_def Let_def)
  have 1: "status (deref c1 r) = Some rejected"
    using assign_at [OF assms(2)] by (simp add: c1)
  have 2: "es = [PostMessage (updateStepStatus i refining),
               StartRefine r (content (deref c1 r)) (map (content \<circ> deref c1) (stepRefs c1))
                 (indexOf (stepRefs c1) r),
               PostMessage (stateUpdated (planState c1))]"
    by (simp add: es c1)
  have 3: "\<exists>description. describe e = Inr description
      \<and> refined = str ''Error generating alternative: '' @ description"
    using assms(5)
      refineStep_cases(1) [of create "content (deref c1 r)" "map (content \<circ> deref c1) (stepRefs c1)"
        "indexOf (stepRefs c1) r" "task c1" projectContext e, OF assms(4)]
    by (cases "describe e") simp_all
  have c2: "c2 = (assign r (\<lambda>s. s\<lparr>content := refined, status := Some edited\<rparr>) cl)\<lparr>modified := t2\<rparr>"
    and 6: "es2 = [PostMessage (stateUpdated (planState c2))]"
    using assms(7) by (auto simp: refineFinished_def Let_def)
  have 4: "content (deref c2 r) = refined" and 5: "status (deref c2 r) = Some edited"
    using assign_at [OF assms(6)] by (simp_all add: c2)
  from 1 2 3 4 5 6 show ?thesis by blast
qed

theorem failed_refine_replaces_content_and_marks_edited_witness:
  "find_step demo_plan (str ''a'') = Some 0 \<and> 0 < length (objects demo_plan)
   \<and> 0 < length (objects demo_rejected)
   \<and> status (deref demo_rejected 0) = Some rejected
   \<and> content (deref (fst (refineFinished 2 0
        (str ''Error generating alternative: 401 Incorrect API key provided'') demo_rejected)) 0)
      = str ''Error generating alternative: 401 Incorrect API key provided''
   \<and> status (deref (fst (refineFinished 2 0
        (str ''Error generating alternative: 401 Incorrect API key provided'') demo_rejected)) 0)
      = Some edited"
proof -
  let ?txt = "str ''Error generating alternative: 401 Incorrect API key provided''"
  have h1: "find_step demo_plan (str ''a'') = Some 0" by code_simp
  have h2: "0 < length (objects demo_plan)" "0 < length (objects demo_rejected)" by code_simp+
  have h3: "onDidReceiveMessage 1 [] (rejectStep (str ''a'')) demo_plan
      = (demo_rejected, snd (onDidReceiveMessage 1 [] (rejectStep (str ''a'')) demo_plan))"
    by (simp add: demo_rejected_def)
  have h4: "failing_generator (refine_request (content (deref demo_rejected 0))
        (map (content \<circ> deref demo_rejected) (stepRefs demo_rejected))
        (indexOf (stepRefs demo_rejected) 0) (task demo_rejected) (str ''Project: demo''))
      = Inl (Error_with (str ''401 Incorrect API key provided''))"
    by (simp add: failing_generator_def)
  have h5: "refineStep failing_generator (content (deref demo_rejected 0))
        (map (content \<circ> deref demo_rejected) (stepRefs demo_rejected))
        (indexOf (stepRefs demo_rejected) 0) (task demo_rejected) (str ''Project: demo'')
      = Inr ?txt"
    by (simp add: refineStep_def refineStep_try_def failing_generator_def describe_def Error_with_def str_def)
  have h7: "refineFinished 2 0 ?txt demo_rejected
      = (fst (refineFinished 2 0 ?txt demo_rejected), snd (refineFinished 2 0 ?txt demo_rejected))"
    by simp
  from failed_refine_replaces_content_and_marks_edited [OF h1 h2(1) h3 h4 h5 h2(2) h7] h1 h2
  show ?thesis by blast
qed

text \<open>
  Claim C3 as stated fails: after step \<open>a\<close> has been rejected and the generator call has
  failed, the status of the step is \<open>edited\<close>, not \<open>rejected\<close>.
\<close>

theorem failed_refine_status_is_edited:
  "find_step demo_plan (str ''a'') = Some 0
   \<and> status (deref demo_rejected 0) = Some rejected
   \<and> refineStep failing_generator (content (deref demo_rejected 0))
        (map (content \<circ> deref demo_rejected) (stepRefs demo_rejected))
        (indexOf (stepRefs demo_rejected) 0) (task demo_rejected) (str ''Project: demo'')
      = Inr (str ''Error generating alternative: 401 Incorrect API key provided'')
   \<and> status (deref (fst (refineFinished 2 0
        (str ''Error generating alternative: 401 Incorrect API key provided'') demo_rejected)) 0)
      = Some edited
   \<and> Some edited \<noteq> Some rejected"
proof -
  have 1: "find_step demo_plan (str ''a'') = Some 0" "status (deref demo_rejected 0) = Some rejected"
    by code_simp+
  have 2: "refineStep failing_generator (content (deref demo_rejected 0))
        (map (content \<circ> deref demo_rejected) (stepRefs demo_rejected))
        (indexOf (stepRefs demo_rejected) 0) (task demo_rejected) (str ''Project: demo'')
      = Inr (str ''Error generating alternative: 401 Incorrect API key provided'')"
    by (simp add: refineStep_def refineStep_try_def failing_generator_def describe_def Error_with_def str_def)
  have 3: "status (deref (fst (refineFinished 2 0
        (str ''Error generating alternative: 401 Incorrect API key provided'') demo_rejected)) 0)
      = Some edited"
    by code_simp
  from 1 2 3 show ?thesis by simp
qed

section \<open>Properties of the parser\<close>

lemma digit_not_space: "isDigit x \<Longrightarrow> \<not> isSpace x"
  by (auto simp: isDigit_def isSpace_def)

lemma colon_class [simp]: "\<not> isSpace 58" "\<not> isDigit 58"
  by (simp_all add: isDigit_def isSpace_def)

lemma letter_class:
  "x \<in> {83, 115, 84, 116, 69, 101, 80, 112} \<Longrightarrow> \<not> isSpace x"
  by (auto simp: isSpace_def)

lemma space_not_s: "isSpace x \<Longrightarrow> x \<notin> {83, 115}"
  by (auto simp: isSpace_def)

lemma digit_not_s: "isDigit x \<Longrightarrow> x \<notin> {83, 115}"
  by (auto simp: isDigit_def)

lemma step_word_Some:
  "step_word s = Some r \<Longrightarrow>
   \<exists>a b c d. s = a # b # c # d # r \<and> a \<in> {83, 115} \<and> b \<in> {84, 116} \<and> c \<in> {69, 101} \<and> d \<in> {80, 112}"
  by (induction s rule: step_word.induct) (auto split: if_splits)

lemma match_label_start:
  assumes "match_label s \<noteq> None" shows "s \<noteq> [] \<and> hd s \<in> {83, 115}"
proof -
  from assms obtain r1 where "step_word s = Some r1"
    by (auto simp: match_label_def split: option.splits)
  from step_word_Some [OF this] show ?thesis by auto
qed

lemma match_label_shape:
  assumes "match_label s = Some r"
  shows "\<exists>l. label_shape l \<and> s = l @ r"
proof -
  from assms obtain r1 where r1: "step_word s = Some r1"
    by (cases "step_word s") (simp_all add: match_label_def)
  from step_word_Some [OF r1] obtain a b c d where
    s: "s = a # b # c # d # r1" and
    abcd: "a \<in> {83, 115}" "b \<in> {84, 116}" "c \<in> {69, 101}" "d \<in> {80, 112}"
    by blast
  define ws where "ws = takeWhile isSpace r1"
  define r2 where "r2 = dropWhile isSpace r1"
  define ds where "ds = takeWhile isDigit r2"
  define r3 where "r3 = dropWhile isDigit r2"
  have m: "(if ws = [] then None
            else if ds = [] then None
            else (case r3 of [] \<Rightarrow> None | ch # t \<Rightarrow> if ch = 58 then Some t else None)) = Some r"
    using assms unfolding match_label_def r1 ws_def r2_def ds_def r3_def Let_def by simp
  have ws: "ws \<noteq> []" using m by (cases "ws = []") simp_all
  have ds: "ds \<noteq> []" using m ws by (cases "ds = []") simp_all
  have "(case r3 of [] \<Rightarrow> None | ch # t \<Rightarrow> if ch = 58 then Some t else None) = Some r"
    using m ws ds by simp
  then have r3: "r3 = 58 # r"
    by (cases r3) (simp_all split: if_splits)
  have "r1 = ws @ r2" unfolding ws_def r2_def by simp
  moreover have "r2 = ds @ r3" unfolding ds_def r3_def by simp
  ultimately have "s = (a # b # c # d # ws @ ds @ [58]) @ r" using s r3 by simp
  moreover have "\<forall>x\<in>set ws. isSpace x" unfolding ws_def by (blast dest: set_takeWhileD)
  moreover have "\<forall>x\<in>set ds. isDigit x" unfolding ds_def by (blast dest: set_takeWhileD)
  ultimately have "label_shape (a # b # c # d # ws @ ds @ [58]) \<and> s = (a # b # c # d # ws @ ds @ [58]) @ r"
    unfolding label_shape_def using abcd ws ds by blast
  then show ?thesis by blast
qed

lemma label_shape_matches:
  assumes "label_shape l" shows "match_label (l @ r) = Some r"
proof -
  from assms obtain a b c d ws ds where
    l: "l = a # b # c # d # ws @ ds @ [58]" and
    abcd: "a \<in> {83, 115}" "b \<in> {84, 116}" "c \<in> {69, 101}" "d \<in> {80, 112}" and
    ws: "ws \<noteq> []" "\<forall>x\<in>set ws. isSpace x" and ds: "ds \<noteq> []" "\<forall>x\<in>set ds. isDigit x"
    unfolding label_shape_def by blast
  from ds obtain d0 ds' where d0: "ds = d0 # ds'" "isDigit d0" by (cases ds) auto
  have sw: "step_word (l @ r) = Some (ws @ ds @ 58 # r)" using l abcd by simp
  have tw: "takeWhile isSpace (ws @ ds @ 58 # r) = ws"
    using ws(2) d0 by (simp add: takeWhile_append2 digit_not_space)
  have dw: "dropWhile isSpace (ws @ ds @ 58 # r) = ds @ 58 # r"
    using ws(2) d0 by (simp add: dropWhile_append2 digit_not_space)
  have td: "takeWhile isDigit (ds @ 58 # r) = ds"
    using ds(2) by (simp add: takeWhile_append2)
  have dd: "dropWhile isDigit (ds @ 58 # r) = 58 # r"
    using ds(2) by (simp add: dropWhile_append2)
  show ?thesis using ws(1) ds(1) by (simp add: match_label_def sw tw dw td dd)
qed

lemma label_shape_props:
  assumes "label_shape l"
  shows "l \<noteq> [] \<and> hd l \<in> {83, 115} \<and> \<not> isSpace (hd l) \<and> last l = 58
       \<and> (\<forall>x\<in>set (tl l). x \<notin> {83, 115})"
proof -
  from assms obtain a b c d ws ds where
    l: "l = a # b # c # d # ws @ ds @ [58]" and
    a: "a \<in> {83, 115}" and b: "b \<in> {84, 116}" and c: "c \<in> {69, 101}" and d: "d \<in> {80, 112}" and
    ws: "\<forall>x\<in>set ws. isSpace x" and ds: "\<forall>x\<in>set ds. isDigit x"
    unfolding label_shape_def by blast
  have na: "\<not> isSpace a" using a by (rule_tac letter_class) auto
  have nb: "b \<notin> {83, 115}" using b by auto
  have nc: "c \<notin> {83, 115}" using c by auto
  have nd: "d \<notin> {83, 115}" using d by auto
  have n58: "(58::nat) \<notin> {83, 115}" by simp
  have nws: "x \<notin> {83, 115}" if "x \<in> set ws" for x using ws that space_not_s by blast
  have nds: "x \<notin> {83, 115}" if "x \<in> set ds" for x using ds that digit_not_s by blast
  have "x \<notin> {83, 115}" if "x \<in> set (tl l)" for x
  proof -
    from that have "x = b \<or> x = c \<or> x = d \<or> x = 58 \<or> x \<in> set ws \<or> x \<in> set ds"
      by (auto simp: l)
    then show ?thesis
    proof (elim disjE)
      assume "x \<in> set ws" then show ?thesis by (rule nws)
    next
      assume "x \<in> set ds" then show ?thesis by (rule nds)
    qed (use nb nc nd n58 in simp_all)
  qed
  then have "\<forall>x\<in>set (tl l). x \<notin> {83, 115}" by blast
  moreover have "l \<noteq> []" "hd l = a" "last l = 58" by (simp_all add: l)
  ultimately show ?thesis using a na by simp
qed

text \<open>What \<open>upto_label\<close> returns.\<close>

lemma upto_label_append: "fst (upto_label s) @ snd (upto_label s) = s"
  by (induction s) auto

lemma upto_label_rest: "snd (upto_label s) = [] \<or> match_label (snd (upto_label s)) \<noteq> None"
  by (induction s) auto

lemma upto_label_skip:
  "\<forall>x\<in>set xs. x \<notin> {83, 115} \<Longrightarrow>
   upto_label (xs @ ys) = (xs @ fst (upto_label ys), snd (upto_label ys))"
proof (induction xs)
  case Nil
  show ?case by simp
next
  case (Cons x xs)
  have "match_label (x # xs @ ys) = None"
  proof (rule ccontr)
    assume "match_label (x # xs @ ys) \<noteq> None"
    from match_label_start [OF this] Cons.prems show False by simp
  qed
  with Cons show ?case by simp
qed

lemma upto_label_free:
  "k < length (fst (upto_label s)) \<Longrightarrow> match_label (drop k s) = None"
proof (induction s arbitrary: k)
  case Nil
  then show ?case by simp
next
  case (Cons ch rest)
  show ?case
  proof (cases "match_label (ch # rest) = None")
    case True
    with Cons show ?thesis by (cases k) auto
  next
    case False
    with Cons.prems show ?thesis by simp
  qed
qed

lemma split_sections_piece:
  "piece \<noteq> [] \<Longrightarrow>
   split_sections piece s = (piece @ fst (upto_label s)) # tail_sections (snd (upto_label s))"
  by (induction s arbitrary: piece) (auto simp: tail_sections_def)

lemma tail_sections_label:
  assumes "label_shape l"
  shows "tail_sections (l @ after)
       = (l @ fst (upto_label after)) # tail_sections (snd (upto_label after))"
proof -
  from label_shape_props [OF assms] obtain ch l' where l: "l = ch # l'"
    and l': "\<forall>x\<in>set l'. x \<notin> {83, 115}"
    by (cases l) auto
  have "tail_sections (l @ after) = split_sections [ch] (l' @ after)"
    by (simp add: l tail_sections_def)
  also have "\<dots> = ([ch] @ fst (upto_label (l' @ after))) # tail_sections (snd (upto_label (l' @ after)))"
    by (rule split_sections_piece) simp
  finally show ?thesis by (simp add: upto_label_skip [OF l'] l)
qed

text \<open>Trimming.\<close>

lemma dropWhile_append_keep:
  "ys \<noteq> [] \<Longrightarrow> \<not> P (hd ys) \<Longrightarrow> dropWhile P (xs @ ys) = dropWhile P xs @ ys"
  by (induction xs) (auto simp: neq_Nil_conv)

lemma trim_trimEnd: "trim s = trimEnd (dropWhile isSpace s)"
  by (simp add: trim_def trimEnd_def)

lemma trimEnd_append_keep:
  "ys \<noteq> [] \<Longrightarrow> \<not> isSpace (last ys) \<Longrightarrow> trimEnd (xs @ ys) = xs @ ys"
proof -
  assume "ys \<noteq> []" "\<not> isSpace (last ys)"
  then have "dropWhile isSpace (rev ys @ rev xs) = rev ys @ rev xs"
    by (cases "rev ys") (auto simp: last_rev hd_rev dest: arg_cong [where f = hd])
  then show ?thesis by (simp add: trimEnd_def)
qed

lemma trimEnd_cons_keep:
  "\<not> isSpace x \<Longrightarrow> trimEnd (x # s) = x # trimEnd s"
proof -
  assume x: "\<not> isSpace x"
  have "dropWhile isSpace (rev s @ [x]) = dropWhile isSpace (rev s) @ [x]"
    using x by (intro dropWhile_append_keep) simp_all
  then show ?thesis by (simp add: trimEnd_def)
qed

lemma trimEnd_label:
  assumes "label_shape l" shows "trimEnd (l @ b) = l @ trimEnd b"
proof -
  from label_shape_props [OF assms] have l: "l \<noteq> []" "last l = 58" by simp_all
  have "dropWhile isSpace (rev b @ rev l) = dropWhile isSpace (rev b) @ rev l"
    using l by (intro dropWhile_append_keep) (simp_all add: hd_rev)
  then show ?thesis by (simp add: trimEnd_def)
qed

lemma dropWhile_trimEnd: "dropWhile isSpace (trimEnd s) = trimEnd (dropWhile isSpace s)"
proof (induction s)
  case Nil
  show ?case by (simp add: trimEnd_def)
next
  case (Cons x s)
  show ?case
  proof (cases "isSpace x")
    case False
    then show ?thesis by (simp add: trimEnd_cons_keep)
  next
    case True
    show ?thesis
    proof (cases "\<forall>y\<in>set s. isSpace y")
      case all: True
      then have a: "dropWhile isSpace (rev s @ [x]) = []" and b: "dropWhile isSpace s = []"
        using True by simp_all
      have "trimEnd (x # s) = []" unfolding trimEnd_def using a by simp
      moreover have "dropWhile isSpace (x # s) = []" using True b by simp
      moreover have "trimEnd [] = []" by (simp add: trimEnd_def)
      ultimately show ?thesis by (simp only: dropWhile.simps)
    next
      case False
      then have "dropWhile isSpace (rev s @ [x]) = dropWhile isSpace (rev s) @ [x]"
        by (simp add: dropWhile_append)
      then have "trimEnd (x # s) = x # trimEnd s" by (simp add: trimEnd_def)
      with True Cons show ?thesis by simp
    qed
  qed
qed

lemma trim_ends:
  assumes "trim s \<noteq> []"
  shows "\<not> isSpace (hd (trim s)) \<and> \<not> isSpace (last (trim s))"
proof -
  have "trim s = dropWhile isSpace (trimEnd s)" by (simp add: trim_trimEnd dropWhile_trimEnd)
  with assms have 1: "\<not> isSpace (hd (trim s))" by (metis hd_dropWhile)
  have "rev (trim s) = dropWhile isSpace (rev (dropWhile isSpace s))" by (simp add: trim_def)
  moreover from assms have "rev (trim s) \<noteq> []" by simp
  ultimately have "\<not> isSpace (hd (rev (trim s)))" by (metis hd_dropWhile)
  with assms have 2: "\<not> isSpace (last (trim s))" by (simp add: hd_rev)
  from 1 2 show ?thesis by simp
qed

lemma trim_fixed:
  assumes "t \<noteq> []" "\<not> isSpace (hd t)" "\<not> isSpace (last t)"
  shows "trim t = t"
proof -
  from assms have "dropWhile isSpace t = t" by (cases t) simp_all
  moreover from assms have "dropWhile isSpace (rev t) = rev t"
    by (cases "rev t") (auto simp: hd_rev dest: arg_cong [where f = hd])
  ultimately show ?thesis by (simp add: trim_def)
qed

lemma trim_idem: "trim (trim s) = trim s"
proof (cases "trim s = []")
  case True
  have "trim [] = []" by (simp add: trim_def)
  with True show ?thesis by simp
next
  case False
  from trim_fixed [OF False] trim_ends [OF False] show ?thesis by simp
qed

lemma trim_decompose: "\<exists>pre post. s = pre @ trim s @ post"
proof -
  have "s = takeWhile isSpace s @ dropWhile isSpace s" by simp
  moreover have "rev (dropWhile isSpace s)
      = takeWhile isSpace (rev (dropWhile isSpace s)) @ dropWhile isSpace (rev (dropWhile isSpace s))"
    by simp
  then have "dropWhile isSpace s
      = trim s @ rev (takeWhile isSpace (rev (dropWhile isSpace s)))"
    unfolding trim_def by (metis rev_append rev_rev_ident)
  ultimately show ?thesis by metis
qed

text \<open>The step of a section that starts with a label.\<close>

lemma section_step_label:
  assumes "label_shape l"
  shows "section_step (l @ b) = (if 20 < length (trim b) then Some (trim b) else None)"
proof -
  from label_shape_props [OF assms] have l: "l \<noteq> []" "\<not> isSpace (hd l)" by simp_all
  then have "dropWhile isSpace (l @ b) = l @ b" by (cases l) simp_all
  then have t: "trim (l @ b) = l @ trimEnd b"
    by (simp add: trim_trimEnd trimEnd_label [OF assms])
  have m: "match_label (l @ trimEnd b) = Some (trimEnd b)" by (rule label_shape_matches [OF assms])
  have g: "dropWhile isSpace (trimEnd b) = trim b"
    by (simp add: dropWhile_trimEnd trim_trimEnd)
  show ?thesis
  proof (cases "trim b = []")
    case True
    then show ?thesis using l by (simp add: section_step_def t m g)
  next
    case False
    then show ?thesis using l by (simp add: section_step_def t m g trim_idem)
  qed
qed

text \<open>The step of the text before the first label: none.\<close>

lemma section_step_before_label:
  "section_step (fst (upto_label s)) = None"
proof (cases "trim (fst (upto_label s)) = []")
  case True
  then show ?thesis by (simp add: section_step_def)
next
  case False
  let ?b = "fst (upto_label s)"
  obtain pre post where b: "?b = pre @ trim ?b @ post" using trim_decompose by blast
  have "match_label (trim ?b) = None"
  proof (rule ccontr)
    assume "match_label (trim ?b) \<noteq> None"
    then obtain r where "match_label (trim ?b) = Some r" by blast
    from match_label_shape [OF this] obtain l where l: "label_shape l" "trim ?b = l @ r" by blast
    have "length pre < length ?b"
    proof -
      have "length ?b = length pre + length (trim ?b) + length post"
        by (subst b) simp
      moreover have "0 < length (trim ?b)" using False by simp
      ultimately show ?thesis by simp
    qed
    from upto_label_free [OF this] have none: "match_label (drop (length pre) s) = None" .
    have "s = pre @ l @ (r @ post @ snd (upto_label s))"
      using upto_label_append [of s] b l(2) by (metis append.assoc)
    then have "drop (length pre) s = l @ (r @ post @ snd (upto_label s))"
      by (metis append_eq_conv_conj)
    with label_shape_matches [OF l(1)] none show False by simp
  qed
  then show ?thesis using False by (simp add: section_step_def)
qed

lemma spec_bodies_skip: "spec_bodies s = spec_bodies (snd (upto_label s))"
  by (induction s) auto

lemma spec_parse_label:
  assumes "match_label r = Some after"
  shows "spec_parse r
       = (if 20 < length (trim (fst (upto_label after))) then [trim (fst (upto_label after))] else [])
         @ spec_parse (snd (upto_label after))"
proof -
  from assms obtain ch r' where r: "r = ch # r'"
    using match_label_start [of r] by (cases r) auto
  have "spec_bodies r = fst (upto_label after) # spec_bodies (snd (upto_label after))"
    using assms by (simp add: r)
  then show ?thesis by (simp add: spec_parse_def)
qed

lemma sections_from_label:
  "r = [] \<or> match_label r \<noteq> None \<Longrightarrow>
   List.map_filter section_step (tail_sections r) = spec_parse r"
proof (induction r rule: length_induct)
  case (1 r)
  show ?case
  proof (cases "r = []")
    case True
    then show ?thesis by (simp add: tail_sections_def spec_parse_def List.map_filter_simps)
  next
    case False
    with "1.prems" obtain after where after: "match_label r = Some after" by blast
    from match_label_shape [OF after] obtain l where l: "label_shape l" "r = l @ after" by blast
    let ?b = "fst (upto_label after)" and ?r2 = "snd (upto_label after)"
    have "length ?r2 < length r"
      using length_upto_label [of after] length_match_label [OF after] by simp
    moreover have "?r2 = [] \<or> match_label ?r2 \<noteq> None" by (rule upto_label_rest)
    ultimately have ih: "List.map_filter section_step (tail_sections ?r2) = spec_parse ?r2"
      using "1.IH" by blast
    have "tail_sections r = (l @ ?b) # tail_sections ?r2"
      unfolding l(2) by (rule tail_sections_label [OF l(1)])
    then have "List.map_filter section_step (tail_sections r)
        = (if 20 < length (trim ?b) then [trim ?b] else []) @ spec_parse ?r2"
      by (simp add: List.map_filter_simps section_step_label [OF l(1)] ih)
    then show ?thesis by (simp only: spec_parse_label [OF after])
  qed
qed

lemma parsePlanIntoSteps_meets_contract:
  "parsePlanIntoSteps plan = spec_parse plan"
proof (cases plan)
  case Nil
  have "trim [] = []" by (simp add: trim_def)
  then have "section_step [] = None" by (simp add: section_step_def)
  then show ?thesis
    by (simp add: Nil parsePlanIntoSteps_def spec_parse_def List.map_filter_simps)
next
  case (Cons ch rest)
  have sections: "split_sections [] plan = tail_sections plan"
    by (simp add: Cons tail_sections_def)
  show ?thesis
  proof (cases "match_label plan = None")
    case False
    then show ?thesis by (simp add: parsePlanIntoSteps_def sections sections_from_label)
  next
    case True
    then have u: "upto_label plan = (ch # fst (upto_label rest), snd (upto_label rest))"
      by (simp add: Cons)
    have "tail_sections plan = ([ch] @ fst (upto_label rest)) # tail_sections (snd (upto_label rest))"
      by (simp add: Cons tail_sections_def [of "ch # rest"] split_sections_piece)
    then have "tail_sections plan = fst (upto_label plan) # tail_sections (snd (upto_label plan))"
      by (simp add: u)
    then have "parsePlanIntoSteps plan
        = List.map_filter section_step (tail_sections (snd (upto_label plan)))"
      by (simp add: parsePlanIntoSteps_def sections List.map_filter_simps section_step_before_label)
    also have "\<dots> = spec_parse (snd (upto_label plan))"
      by (rule sections_from_label) (rule upto_label_rest)
    also have "\<dots> = spec_parse plan"
      unfolding spec_parse_def by (subst (2) spec_bodies_skip) simp
    finally show ?thesis .
  qed
qed

lemma is_label_shape: "is_label l = label_shape l"
proof
  assume "is_label l"
  then have "match_label l = Some []" by (simp add: is_label_def)
  from match_label_shape [OF this] show "label_shape l" by auto
next
  assume "label_shape l"
  from label_shape_matches [OF this, of "[]"] show "is_label l" by (simp add: is_label_def)
qed

lemma space_start_no_label:
  "s \<noteq> [] \<Longrightarrow> isSpace (hd s) \<Longrightarrow> match_label s = None"
  using match_label_start [of s] space_not_s [of "hd s"] by blast

text \<open>
  A label that starts in \<open>x\<close> ends in \<open>x\<close>, when \<open>x\<close> is followed by white space and then by
  the end of the text or by the first letter of a label.
\<close>

lemma label_does_not_span:
  assumes m: "match_label (x @ w @ y) \<noteq> None" and x: "x \<noteq> []"
    and w: "\<forall>c\<in>set w. isSpace c" and y: "y = [] \<or> hd y \<in> {83, 115}"
  shows "match_label x \<noteq> None"
proof -
  from m obtain r where "match_label (x @ w @ y) = Some r" by blast
  from match_label_shape [OF this] obtain l where l: "label_shape l" "x @ (w @ y) = l @ r" by auto
  from l(2) obtain us where "(x = l @ us \<and> us @ (w @ y) = r) \<or> (x @ us = l \<and> w @ y = us @ r)"
    by (auto simp: append_eq_append_conv2)
  then show ?thesis
  proof
    assume "x = l @ us \<and> us @ (w @ y) = r"
    with label_shape_matches [OF l(1), of us] show ?thesis by simp
  next
    assume a: "x @ us = l \<and> w @ y = us @ r"
    show ?thesis
    proof (cases "us = []")
      case True
      with a label_shape_matches [OF l(1), of "[]"] show ?thesis by simp
    next
      case False
      from label_shape_props [OF l(1)] have last: "last l = 58"
        and tl: "\<forall>c\<in>set (tl l). c \<notin> {83, 115}" by simp_all
      from a False have lus: "last us = 58" using last by auto
      from a obtain vs where "(w = us @ vs \<and> vs @ y = r) \<or> (w @ vs = us \<and> y = vs @ r)"
        by (auto simp: append_eq_append_conv2)
      then show ?thesis
      proof
        assume "w = us @ vs \<and> vs @ y = r"
        then have "last us \<in> set w" using False by auto
        with w lus show ?thesis by auto
      next
        assume b: "w @ vs = us \<and> y = vs @ r"
        show ?thesis
        proof (cases "vs = []")
          case True
          with b False have "last us \<in> set w" by auto
          with w lus show ?thesis by auto
        next
          case vs: False
          with b y have "hd vs \<in> {83, 115}" by auto
          moreover have "hd vs \<in> set (tl l)"
          proof -
            from a b have "l = x @ w @ vs" by auto
            with x have "tl l = tl x @ w @ vs" by simp
            with vs show ?thesis by auto
          qed
          ultimately show ?thesis using tl by blast
        qed
      qed
    qed
  qed
qed

lemma upto_label_stop: "y = [] \<or> match_label y \<noteq> None \<Longrightarrow> upto_label y = ([], y)"
  by (cases y) auto

lemma upto_label_region:
  assumes "label_free a" and "\<forall>c\<in>set w. isSpace c" and "y = [] \<or> match_label y \<noteq> None"
  shows "upto_label (a @ w @ y) = (a @ w, y)"
  using assms(1)
proof (induction a)
  case Nil
  have "\<forall>c\<in>set w. c \<notin> {83, 115}" using assms(2) space_not_s by blast
  from upto_label_skip [OF this, of y] upto_label_stop [OF assms(3)] show ?case by simp
next
  case (Cons ch a)
  have y: "y = [] \<or> hd y \<in> {83, 115}" using assms(3) match_label_start [of y] by blast
  have "match_label ((ch # a) @ w @ y) = None"
  proof (rule ccontr)
    assume "match_label ((ch # a) @ w @ y) \<noteq> None"
    from label_does_not_span [OF this _ assms(2) y] Cons.prems show False by simp
  qed
  with Cons show ?case by simp
qed

lemma dropWhile_all: "\<forall>c\<in>set xs. P c \<Longrightarrow> dropWhile P (xs @ ys) = dropWhile P ys"
  by (induction xs) auto

lemma trim_padded:
  assumes "\<forall>c\<in>set w. isSpace c" and "\<forall>c\<in>set w'. isSpace c"
  shows "trim (w @ a @ w') = trim a"
proof -
  have "dropWhile isSpace (rev w' @ rev (w @ a)) = dropWhile isSpace (rev (w @ a))"
    using assms(2) by (intro dropWhile_all) simp
  then have e: "trimEnd (w @ a @ w') = trimEnd (w @ a)" by (simp add: trimEnd_def)
  have "trim (w @ a @ w') = dropWhile isSpace (trimEnd (w @ a @ w'))"
    by (simp only: trim_trimEnd dropWhile_trimEnd)
  also have "\<dots> = dropWhile isSpace (trimEnd (w @ a))" by (simp only: e)
  also have "\<dots> = trimEnd (dropWhile isSpace (w @ a))" by (rule dropWhile_trimEnd)
  also have "\<dots> = trim a" using assms(1) by (simp add: dropWhile_all trim_trimEnd)
  finally show ?thesis .
qed

lemma spec_bodies_label:
  assumes "label_shape l" and "\<forall>c\<in>set w. isSpace c" and "\<forall>c\<in>set w'. isSpace c"
    and "label_free a" and "y = [] \<or> match_label y \<noteq> None"
  shows "spec_bodies (l @ w @ a @ w' @ y) = (w @ a @ w') # spec_bodies y"
proof -
  from label_shape_props [OF assms(1)] obtain ch l' where l: "l = ch # l'" by (cases l) auto
  have m: "match_label (l @ w @ a @ w' @ y) = Some (w @ a @ w' @ y)"
    by (rule label_shape_matches [OF assms(1)])
  have "\<forall>c\<in>set w. c \<notin> {83, 115}" using assms(2) space_not_s by blast
  from upto_label_skip [OF this, of "a @ w' @ y"] upto_label_region [OF assms(4,3,5)]
  have u: "upto_label (w @ a @ w' @ y) = (w @ a @ w', y)" by simp
  have "spec_bodies ((ch # l') @ w @ a @ w' @ y) = (w @ a @ w') # spec_bodies y"
    using m u unfolding l by simp
  then show ?thesis by (simp add: l)
qed

lemma spec_bodies_prefix:
  assumes "label_free pre" and "y = [] \<or> match_label y \<noteq> None"
  shows "spec_bodies (pre @ y) = spec_bodies y"
proof -
  from upto_label_region [OF assms(1) _ assms(2), of "[]"]
  have "upto_label (pre @ y) = (pre, y)" by simp
  with spec_bodies_skip [of "pre @ y"] show ?thesis by simp
qed

lemma label_starts: "label_shape l \<Longrightarrow> match_label (l @ r) \<noteq> None"
  by (simp add: label_shape_matches)

lemma parse_one_step:
  assumes "is_label l" and "list_all isSpace w" and "list_all isSpace w'" and "label_free a"
  shows "parsePlanIntoSteps (l @ w @ a @ w') = (if 20 < length (trim a) then [trim a] else [])"
proof -
  have l: "label_shape l" using assms(1) by (simp add: is_label_shape)
  have w: "\<forall>c\<in>set w. isSpace c" "\<forall>c\<in>set w'. isSpace c"
    using assms(2,3) by (simp_all add: list_all_iff)
  from spec_bodies_label [OF l w assms(4), of "[]"]
  have "spec_bodies (l @ w @ a @ w') = [w @ a @ w']" by simp
  then show ?thesis
    by (simp add: parsePlanIntoSteps_meets_contract spec_parse_def trim_padded [OF w])
qed

lemma parse_two_steps:
  assumes "is_label l1" and "is_label l2"
    and "list_all isSpace w1" and "list_all isSpace w2"
    and "list_all isSpace w3" and "list_all isSpace w4"
    and "label_free pre" and "label_free a" and "label_free b"
  shows "parsePlanIntoSteps (pre @ l1 @ w1 @ a @ w2 @ l2 @ w3 @ b @ w4)
       = filter (\<lambda>body. 20 < length body) [trim a, trim b]"
proof -
  have l1: "label_shape l1" and l2: "label_shape l2"
    using assms(1,2) by (simp_all add: is_label_shape)
  have w12: "\<forall>c\<in>set w1. isSpace c" "\<forall>c\<in>set w2. isSpace c"
    and w34: "\<forall>c\<in>set w3. isSpace c" "\<forall>c\<in>set w4. isSpace c"
    using assms(3-6) by (simp_all add: list_all_iff)
  let ?second = "l2 @ w3 @ b @ w4"
  have s2: "spec_bodies ?second = [w3 @ b @ w4]"
    using spec_bodies_label [OF l2 w34 assms(9), of "[]"] by simp
  have "spec_bodies (l1 @ w1 @ a @ w2 @ ?second) = (w1 @ a @ w2) # spec_bodies ?second"
    by (rule spec_bodies_label [OF l1 w12 assms(8)]) (simp add: label_starts [OF l2])
  moreover have "spec_bodies (pre @ l1 @ w1 @ a @ w2 @ ?second)
      = spec_bodies (l1 @ w1 @ a @ w2 @ ?second)"
    by (rule spec_bodies_prefix [OF assms(7)]) (simp add: label_starts [OF l1])
  ultimately have "spec_bodies (pre @ l1 @ w1 @ a @ w2 @ ?second) = [w1 @ a @ w2, w3 @ b @ w4]"
    using s2 by simp
  then show ?thesis
    by (simp add: parsePlanIntoSteps_meets_contract spec_parse_def trim_padded [OF w12]
        trim_padded [OF w34])
qed

subsection \<open>C2: the parser meets its contract\<close>

text \<open>
  Claim C2. For every text, \<open>parsePlanIntoSteps\<close> returns what the contract says: the text is
  cut at the occurrences of the label \<open>Step <integer>:\<close> (in either case), each label is
  discarded, and the trimmed bodies between labels are returned in order of appearance, a
  body being kept if and only if its trimmed length is greater than 20. In particular, for a
  text made of any label-free introduction, a label, a body \<open>a\<close>, a second label and a body
  \<open>b\<close> (with any white space around the bodies), the result is \<open>[trim a, trim b]\<close> restricted
  to the bodies longer than 20, so \<open>[a, b]\<close> when both are trimmed and longer than 20; and
  a single body of trimmed length 20 is dropped while one of length 21 is kept.
\<close>

theorem parsePlanIntoSteps_contract:
  "parsePlanIntoSteps plan = spec_parse plan
   \<and> (is_label l1 \<and> is_label l2
        \<and> list_all isSpace w1 \<and> list_all isSpace w2 \<and> list_all isSpace w3 \<and> list_all isSpace w4
        \<and> label_free pre \<and> label_free a \<and> label_free b \<longrightarrow>
        parsePlanIntoSteps (pre @ l1 @ w1 @ a @ w2 @ l2 @ w3 @ b @ w4)
          = filter (\<lambda>body. 20 < length body) [trim a, trim b])
   \<and> (is_label l1 \<and> list_all isSpace w1 \<and> list_all isSpace w2 \<and> label_free a \<longrightarrow>
        parsePlanIntoSteps (l1 @ w1 @ a @ w2) = (if 20 < length (trim a) then [trim a] else []))"
  using parsePlanIntoSteps_meets_contract [of plan]
    parse_two_steps [of l1 l2 w1 w2 w3 w4 pre a b] parse_one_step [of l1 w1 w2 a]
  by blast

theorem parsePlanIntoSteps_contract_witness:
  "is_label (str ''Step 1:'') \<and> is_label (str ''step  22:'')
   \<and> list_all isSpace (str '' '') \<and> list_all isSpace (str ''\<newline>'')
   \<and> list_all isSpace (str ''  '') \<and> list_all isSpace (str '' \<newline>'') \<and> list_all isSpace []
   \<and> label_free (str ''Here is the plan.\<newline>'')
   \<and> label_free (str ''Install the dependencies now'')
   \<and> label_free (str ''Create the user model file'')
   \<and> label_free (str ''12345678901234567890'') \<and> label_free (str ''123456789012345678901'')
   \<and> parsePlanIntoSteps demo_text
       = [str ''Install the dependencies now'', str ''Create the user model file'']
   \<and> parsePlanIntoSteps (str ''Step 1:'' @ str '' '' @ str ''12345678901234567890'' @ []) = []
   \<and> parsePlanIntoSteps (str ''Step 1:'' @ str '' '' @ str ''123456789012345678901'' @ [])
       = [str ''123456789012345678901'']"
proof -
  have l: "is_label (str ''Step 1:'')" "is_label (str ''step  22:'')"
    by (simp_all add: is_label_def match_label_def str_def isSpace_def isDigit_def)
  have w: "list_all isSpace (str '' '')" "list_all isSpace (str ''\<newline>'')"
    "list_all isSpace (str ''  '')" "list_all isSpace (str '' \<newline>'')" "list_all isSpace []"
    by (simp_all add: str_def isSpace_def)
  have f: "label_free (str ''Here is the plan.\<newline>'')"
    "label_free (str ''Install the dependencies now'')"
    "label_free (str ''Create the user model file'')"
    "label_free (str ''12345678901234567890'')" "label_free (str ''123456789012345678901'')"
    by (simp_all add: str_def match_label_def)
  have t: "trim (str ''Install the dependencies now'') = str ''Install the dependencies now''"
    "trim (str ''Create the user model file'') = str ''Create the user model file''"
    "trim (str ''12345678901234567890'') = str ''12345678901234567890''"
    "trim (str ''123456789012345678901'') = str ''123456789012345678901''"
    by (simp_all add: trim_def str_def isSpace_def)
  have n: "20 < length (str ''Install the dependencies now'')"
    "20 < length (str ''Create the user model file'')"
    "\<not> 20 < length (str ''12345678901234567890'')"
    "20 < length (str ''123456789012345678901'')"
    by (simp_all add: str_def)
  have 1: "parsePlanIntoSteps demo_text
       = [str ''Install the dependencies now'', str ''Create the user model file'']"
    using parsePlanIntoSteps_contract [of "[]" "str ''Step 1:''" "str ''step  22:''" "str '' ''"
        "str ''\<newline>''" "str ''  ''" "str '' \<newline>''" "str ''Here is the plan.\<newline>''"
        "str ''Install the dependencies now''" "str ''Create the user model file''"]
      l w f unfolding demo_text_def by (simp only: t n filter.simps if_True simp_thms)
  have 2: "parsePlanIntoSteps (str ''Step 1:'' @ str '' '' @ str ''12345678901234567890'' @ []) = []"
    using parsePlanIntoSteps_contract [of "[]" "str ''Step 1:''" _ "str '' ''" "[]" _ _ _
        "str ''12345678901234567890''"] l w f
    by (simp only: t n if_False simp_thms)
  have 3: "parsePlanIntoSteps (str ''Step 1:'' @ str '' '' @ str ''123456789012345678901'' @ [])
       = [str ''123456789012345678901'']"
    using parsePlanIntoSteps_contract [of "[]" "str ''Step 1:''" _ "str '' ''" "[]" _ _ _
        "str ''123456789012345678901''"] l w f
    by (simp only: t n if_True simp_thms)
  from l w f 1 2 3 show ?thesis by (simp only: simp_thms)
qed

section \<open>Properties of the progress display\<close>

lemma nat_pow_bounds:
  fixes n :: nat assumes "0 < n"
  shows "(2::rat) powi (int (floorlog 2 n) - 1) \<le> of_nat n \<and> (of_nat n :: rat) < 2 powi int (floorlog 2 n)"
proof -
  from floorlog_bounds [OF assms, of 2] have b: "2 ^ (floorlog 2 n - 1) \<le> n" "n < 2 ^ floorlog 2 n"
    by simp_all
  have pos: "0 < floorlog 2 n" using assms by (simp add: floorlog_def)
  then have "int (floorlog 2 n) - 1 = int (floorlog 2 n - 1)" by simp
  then have "(2::rat) powi (int (floorlog 2 n) - 1) = 2 ^ (floorlog 2 n - 1)"
    by (simp only: power_int_of_nat)
  also have "\<dots> = of_nat (2 ^ (floorlog 2 n - 1))" by simp
  also have "\<dots> \<le> of_nat n" using b(1) by (simp only: of_nat_le_iff)
  finally have 1: "(2::rat) powi (int (floorlog 2 n) - 1) \<le> of_nat n" .
  have "(of_nat n :: rat) < of_nat (2 ^ floorlog 2 n)" using b(2) by (simp only: of_nat_less_iff)
  also have "\<dots> = 2 powi int (floorlog 2 n)" by (simp add: power_int_of_nat)
  finally show ?thesis using 1 by simp
qed

lemma ilog2_bounds:
  assumes "0 < x"
  shows "2 powi ilog2 x \<le> x \<and> x < 2 powi (ilog2 x + 1)"
proof -
  obtain p q where pq: "quotient_of x = (p, q)" by (cases "quotient_of x")
  then have q: "0 < q" and x: "x = of_int p / of_int q"
    by (simp_all add: quotient_of_denom_pos quotient_of_div)
  from assms x q have p: "0 < p" by (simp add: zero_less_divide_iff)
  define P where "P = int (floorlog 2 (nat p))"
  define Q where "Q = int (floorlog 2 (nat q))"
  from nat_pow_bounds [of "nat p"] p have bp: "(2::rat) powi (P - 1) \<le> of_int p" "(of_int p :: rat) < 2 powi P"
    by (simp_all add: P_def)
  from nat_pow_bounds [of "nat q"] q have bq: "(2::rat) powi (Q - 1) \<le> of_int q" "(of_int q :: rat) < 2 powi Q"
    by (simp_all add: Q_def)
  have qpos: "(0::rat) < of_int q" using q by simp
  have two: "(0::rat) < 2 powi n" for n by (simp add: zero_less_power_int)
  have up: "x < 2 powi (P - Q + 1)"
  proof -
    have "x < 2 powi P / of_int q" unfolding x using bp(2) qpos by (simp add: divide_strict_right_mono)
    also have "\<dots> \<le> 2 powi P / 2 powi (Q - 1)"
      using bq(1) two [of P] two [of "Q - 1"] by (simp add: frac_le)
    also have "\<dots> = 2 powi (P - Q + 1)"
      by (simp add: power_int_diff power_int_add)
    finally show ?thesis .
  qed
  have lo: "2 powi (P - Q - 1) \<le> x"
  proof -
    have "2 powi (P - Q - 1) = 2 powi (P - 1) / (2::rat) powi Q"
      by (simp add: power_int_diff)
    also have "\<dots> \<le> of_int p / 2 powi Q"
      using bp(1) two [of Q] by (simp add: divide_right_mono)
    also have "\<dots> \<le> of_int p / of_int q"
      using bq(2) qpos p by (intro divide_left_mono) (simp_all add: less_imp_le)
    finally show ?thesis by (simp add: x)
  qed
  have "ilog2 x = (if 2 powi (P - Q) \<le> x then P - Q else P - Q - 1)"
    by (simp add: ilog2_def pq P_def Q_def Let_def)
  then show ?thesis using up lo by (auto simp: not_le less_imp_le)
qed

lemma round_half_even_err: "\<bar>of_int (round_half_even z) - z\<bar> \<le> 1 / 2"
proof -
  have "of_int \<lfloor>z\<rfloor> \<le> z" "z < of_int \<lfloor>z\<rfloor> + 1" by linarith+
  then show ?thesis by (auto simp: round_half_even_def Let_def abs_le_iff) 
qed

lemma to_double_err:
  assumes "0 < x"
  shows "\<bar>to_double x - x\<bar> \<le> x / 2 ^ 53"
proof -
  define e where "e = ilog2 x - 52"
  define s :: rat where "s = 2 powi e"
  have s: "0 < s" by (simp add: s_def zero_less_power_int)
  have td: "to_double x = of_int (round_half_even (x / s)) * s"
    using assms by (simp add: to_double_def e_def s_def Let_def)
  have "to_double x - x = (of_int (round_half_even (x / s)) - x / s) * s"
    using s by (simp add: td field_simps)
  then have "\<bar>to_double x - x\<bar> = \<bar>of_int (round_half_even (x / s)) - x / s\<bar> * \<bar>s\<bar>"
    by (simp only: abs_mult)
  also have "\<dots> = \<bar>of_int (round_half_even (x / s)) - x / s\<bar> * s"
    using s by simp
  also have "\<dots> \<le> 1 / 2 * s"
    using round_half_even_err [of "x / s"] s by (intro mult_right_mono) simp_all
  also have "\<dots> \<le> x / 2 ^ 53"
  proof -
    from ilog2_bounds [OF assms] have "2 powi (e + 52) \<le> x" by (simp add: e_def)
    then have "s * 2 ^ 52 \<le> x" by (simp add: s_def power_int_add)
    then show ?thesis by (simp add: field_simps)
  qed
  finally show ?thesis .
qed

lemma Math_round_bounds: "of_int (Math_round y) \<le> y + 1 / 2 \<and> y + 1 / 2 < of_int (Math_round y) + 1"
  unfolding Math_round_def by linarith

lemma percent_error:
  fixes a t :: nat
  assumes "0 < a" "a \<le> t"
  defines "q \<equiv> (of_nat a / of_nat t :: rat)"
  shows "\<bar>to_double (to_double q * 100) - 100 * q\<bar> \<le> 300 * q / 2 ^ 53"
proof -
  have q: "0 < q" using assms by (simp add: q_def)
  from to_double_err [OF q] have e1: "\<bar>to_double q - q\<bar> \<le> q / 2 ^ 53" .
  have small: "q / 2 ^ 53 < q" using q by (simp add: field_simps)
  from abs_le_iff [THEN iffD1, OF e1] small
  have y1: "0 < to_double q" "to_double q \<le> 2 * q" by linarith+
  then have "0 < to_double q * 100" by simp
  from to_double_err [OF this]
  have e2: "\<bar>to_double (to_double q * 100) - to_double q * 100\<bar> \<le> to_double q * 100 / 2 ^ 53" .
  also have "\<dots> \<le> 200 * q / 2 ^ 53" using y1(2) by (simp add: field_simps)
  finally have e2': "\<bar>to_double (to_double q * 100) - to_double q * 100\<bar> \<le> 200 * q / 2 ^ 53" .
  have "to_double (to_double q * 100) - 100 * q
      = (to_double (to_double q * 100) - to_double q * 100) + 100 * (to_double q - q)"
    by (simp add: algebra_simps)
  then have "\<bar>to_double (to_double q * 100) - 100 * q\<bar>
      \<le> \<bar>to_double (to_double q * 100) - to_double q * 100\<bar> + \<bar>100 * (to_double q - q)\<bar>"
    by (simp only: abs_triangle_ineq)
  also have "\<bar>100 * (to_double q - q)\<bar> = 100 * \<bar>to_double q - q\<bar>"
    by (subst abs_mult) simp
  finally have "\<bar>to_double (to_double q * 100) - 100 * q\<bar>
      \<le> \<bar>to_double (to_double q * 100) - to_double q * 100\<bar> + 100 * \<bar>to_double q - q\<bar>" .
  also have "\<dots> \<le> 200 * q / 2 ^ 53 + 100 * (q / 2 ^ 53)" using e1 e2' by simp
  also have "\<dots> = 300 * q / 2 ^ 53" by simp
  finally show ?thesis .
qed

lemma progressPercent_nearest:
  fixes a t :: nat
  assumes "a \<le> t" "0 < t" "t < 2 ^ 32"
  shows "\<bar>of_int (progressPercent a t) - 100 * of_nat a / of_nat t\<bar> \<le> (1 / 2 :: rat)"
proof (cases "a = 0")
  case True
  have "\<lfloor>(1::rat) / 2\<rfloor> = 0" by (rule floor_unique) simp_all
  then have "Math_round 0 = 0" by (simp add: Math_round_def)
  then show ?thesis using assms True by (simp add: progressPercent_def to_double_def)
next
  case False
  define A T :: rat where "A = of_nat a" and "T = of_nat t"
  define q where "q = A / T"
  define y where "y = to_double (to_double q * 100)"
  define p where "p = progressPercent a t"
  have p: "p = Math_round y" using assms by (simp add: p_def progressPercent_def y_def q_def A_def T_def)
  have T: "0 < T" using assms(2) by (simp add: T_def)
  have A: "0 < A" "A \<le> T" using assms(1) False by (simp_all add: A_def T_def)
  have "(of_nat t :: rat) < of_nat (2 ^ 32)" using assms(3) by (simp only: of_nat_less_iff)
  then have T32: "T < 2 ^ 32" by (simp add: T_def)
  from percent_error [of a t] False assms have d: "\<bar>y - 100 * q\<bar> \<le> 300 * q / 2 ^ 53"
    by (simp add: y_def q_def A_def T_def)
  have qT: "q * T = A" using T by (simp add: q_def)
  have tiny: "2 * T * (300 * q / 2 ^ 53) < 1"
  proof -
    have "2 * T * (300 * q / 2 ^ 53) = 600 * (q * T) / 2 ^ 53" by simp
    also have "\<dots> = 600 * A / 2 ^ 53" by (simp only: qT)
    also have "\<dots> < 600 * 2 ^ 32 / 2 ^ 53" using A T32 by (simp add: divide_strict_right_mono)
    also have "\<dots> < 1" by simp
    finally show ?thesis .
  qed
  from Math_round_bounds [of y] have b: "of_int p \<le> y + 1 / 2" "y + 1 / 2 < of_int p + 1"
    by (simp_all add: p)
  from abs_le_iff [THEN iffD1, OF d]
  have du: "y \<le> 100 * q + 300 * q / 2 ^ 53" and dl: "100 * q - 300 * q / 2 ^ 53 \<le> y"
    by linarith+
  have hundred: "2 * T * (100 * q) = 200 * A" using qT by (simp add: algebra_simps)
  have up: "2 * T * of_int p - 200 * A - T < 1"
  proof -
    have "2 * T * of_int p \<le> 2 * T * (100 * q + 300 * q / 2 ^ 53 + 1 / 2)"
      using b(1) du T by (intro mult_left_mono) simp_all
    also have "\<dots> = 200 * A + 2 * T * (300 * q / 2 ^ 53) + T"
      using hundred by (simp add: algebra_simps)
    finally show ?thesis using tiny by simp
  qed
  have lo: "- 1 < 2 * T * of_int p - 200 * A + T"
  proof -
    have "2 * T * (100 * q - 300 * q / 2 ^ 53 - 1 / 2) < 2 * T * of_int p"
      using b(2) dl T by (intro mult_strict_left_mono) simp_all
    moreover have "2 * T * (100 * q - 300 * q / 2 ^ 53 - 1 / 2)
        = 200 * A - 2 * T * (300 * q / 2 ^ 53) - T"
      using hundred by (simp add: algebra_simps)
    ultimately show ?thesis using tiny by simp
  qed
  have "2 * T * of_int p - 200 * A - T = of_int (2 * int t * p - 200 * int a - int t)"
    by (simp add: A_def T_def)
  with up have "(of_int (2 * int t * p - 200 * int a - int t) :: rat) < of_int 1" by simp
  then have "2 * int t * p - 200 * int a - int t < 1" by (simp only: of_int_less_iff)
  then have iu: "2 * int t * p - 200 * int a - int t \<le> 0" by simp
  have "2 * T * of_int p - 200 * A + T = of_int (2 * int t * p - 200 * int a + int t)"
    by (simp add: A_def T_def)
  with lo have "(of_int (- 1) :: rat) < of_int (2 * int t * p - 200 * int a + int t)" by simp
  then have "- 1 < 2 * int t * p - 200 * int a + int t" by (simp only: of_int_less_iff)
  then have il: "0 \<le> 2 * int t * p - 200 * int a + int t" by simp
  have ru: "2 * T * of_int p - 200 * A - T \<le> 0"
    using iu by (simp add: A_def T_def flip: of_int_le_iff [where 'a = rat])
  have rl: "0 \<le> 2 * T * of_int p - 200 * A + T"
    using il by (simp add: A_def T_def flip: of_int_le_iff [where 'a = rat])
  have "2 * T * (of_int p - 100 * q) = 2 * T * of_int p - 200 * A"
    using hundred by (simp add: algebra_simps)
  with ru rl have "- T \<le> 2 * T * (of_int p - 100 * q)" "2 * T * (of_int p - 100 * q) \<le> T" by simp_all
  then have "T * (- (1 / 2)) \<le> T * (of_int p - 100 * q)" "T * (of_int p - 100 * q) \<le> T * (1 / 2)"
    by simp_all
  then have "- (1 / 2) \<le> of_int p - 100 * q" "of_int p - 100 * q \<le> 1 / 2"
    using T by (simp_all only: mult_le_cancel_left_pos)
  then have "\<bar>of_int p - 100 * q\<bar> \<le> 1 / 2" by linarith
  then show ?thesis by (simp only: p_def q_def A_def T_def times_divide_eq_right)
qed

text \<open>Evaluating the model: a double is determined by its exponent and significand.\<close>

lemma ilog2_unique:
  assumes "0 < x" "2 powi k \<le> x" "x < 2 powi (k + 1)"
  shows "ilog2 x = k"
proof (rule ccontr)
  assume ne: "ilog2 x \<noteq> k"
  from ilog2_bounds [OF assms(1)] have b: "2 powi ilog2 x \<le> x" "x < 2 powi (ilog2 x + 1)" by simp_all
  show False
  proof (cases "ilog2 x < k")
    case True
    then have "(2::rat) powi (ilog2 x + 1) \<le> 2 powi k" by (intro power_int_increasing) simp_all
    with b(2) assms(2) show False by simp
  next
    case False
    with ne have "(2::rat) powi (k + 1) \<le> 2 powi ilog2 x" by (intro power_int_increasing) simp_all
    with b(1) assms(3) show False by simp
  qed
qed

lemma round_half_even_unique:
  assumes "\<bar>z - of_int m\<bar> < 1 / 2"
  shows "round_half_even z = m"
proof -
  from abs_less_iff [THEN iffD1, OF assms]
  have lo: "of_int m - 1 / 2 < z" and hi: "z < of_int m + 1 / 2" by linarith+
  consider "\<lfloor>z\<rfloor> = m" | "\<lfloor>z\<rfloor> = m - 1"
  proof -
    have "of_int (m - 1) \<le> z" using lo by simp
    then have "m - 1 \<le> \<lfloor>z\<rfloor>" by (simp only: le_floor_iff)
    moreover have "z < of_int (m + 1)" using hi by simp
    then have "\<lfloor>z\<rfloor> < m + 1" by (simp only: floor_less_iff)
    ultimately have "\<lfloor>z\<rfloor> = m \<or> \<lfloor>z\<rfloor> = m - 1" by linarith
    then show ?thesis using that by blast
  qed
  then show ?thesis
  proof cases
    case 1
    with hi show ?thesis by (simp add: round_half_even_def)
  next
    case 2
    with lo show ?thesis by (simp add: round_half_even_def)
  qed
qed

lemma to_double_value:
  assumes "0 < x" "2 powi k \<le> x" "x < 2 powi (k + 1)" "\<bar>x / 2 powi (k - 52) - of_int m\<bar> < 1 / 2"
  shows "to_double x = of_int m * 2 powi (k - 52)"
  using assms(1) round_half_even_unique [OF assms(4)]
  by (simp add: to_double_def ilog2_unique [OF assms(1-3)] Let_def)

text \<open>
  The rounding is to a nearest integer, not always half-up on the exact ratio: 29 accepted
  steps of 200 are exactly 14.5 per cent, the double nearest to 0.145 lies below it, and the
  display shows 14.
\<close>

lemma exact_half_rounds_down_in_doubles: "progressPercent 29 200 = 14"
proof -
  have 1: "to_double (29 / 200) = of_int 5224175567749775 * 2 powi (- 3 - 52)"
    by (rule to_double_value) (simp_all add: power_int_minus power_int_add)
  have 2: "to_double (to_double (29 / 200) * 100) = of_int 8162774324609023 * 2 powi (3 - 52)"
    unfolding 1 by (rule to_double_value) (simp_all add: power_int_minus power_int_add)
  have "Math_round (of_int 8162774324609023 * 2 powi (3 - 52)) = 14"
    unfolding Math_round_def by (rule floor_unique) (simp_all add: power_int_minus)
  then show ?thesis by (simp add: progressPercent_def 2)
qed

subsection \<open>C10: the progress display\<close>

text \<open>
  Claim C10. After every \<open>updateUI\<close>, whatever the webview showed before, the progress
  display shows the number of accepted steps and the number of steps of the state just
  received, and a percentage that is 0 for an empty plan and otherwise an integer nearest to
  \<open>100 * accepted / total\<close>: it differs from the exact percentage by at most one half. The
  number of steps is an array length, hence below 2 to the power 32.
\<close>

theorem progress_is_rounded_ratio:
  assumes "length (steps st) < 2 ^ 32"
  shows "case progress (updateUI st w) of
           (acceptedCount, totalCount, percent) \<Rightarrow>
             acceptedCount = length (filter (\<lambda>s. status s = Some accepted) (steps st))
             \<and> totalCount = length (steps st)
             \<and> (totalCount = 0 \<longrightarrow> percent = 0)
             \<and> (0 < totalCount \<longrightarrow>
                  \<bar>of_int percent - 100 * of_nat acceptedCount / of_nat totalCount\<bar> \<le> (1 / 2 :: rat))"
proof -
  let ?a = "length (filter (\<lambda>s. status s = Some accepted) (steps st))"
  let ?t = "length (steps st)"
  have "?a \<le> ?t" by simp
  from progressPercent_nearest [OF this _ assms]
  have "0 < ?t \<longrightarrow> \<bar>of_int (progressPercent ?a ?t) - 100 * of_nat ?a / of_nat ?t\<bar> \<le> (1 / 2 :: rat)"
    by blast
  moreover have "?t = 0 \<longrightarrow> progressPercent ?a ?t = 0" by (simp add: progressPercent_def)
  ultimately show ?thesis by (simp add: updateUI_def updateProgressDisplay_def Let_def)
qed

theorem progress_is_rounded_ratio_witness:
  "length (steps demo_accepted) < 2 ^ 32
   \<and> progress (updateUI demo_accepted blank_webview) = (1, 3, 33)"
proof -
  have n: "length (steps demo_accepted) = 3"
    "length (filter (\<lambda>s. status s = Some accepted) (steps demo_accepted)) = 1"
    by code_simp+
  have h: "length (steps demo_accepted) < 2 ^ 32" by (simp add: n)
  obtain a t p where r: "progress (updateUI demo_accepted blank_webview) = (a, t, p)"
    by (cases "progress (updateUI demo_accepted blank_webview)")
  from progress_is_rounded_ratio [OF h, of blank_webview] r n
  have a: "a = 1" and t: "t = 3" and b: "\<bar>of_int p - 100 * 1 / 3\<bar> \<le> (1 / 2 :: rat)"
    by auto
  from abs_le_iff [THEN iffD1, OF b]
  have "6 * (of_int p :: rat) \<le> 203" "197 \<le> 6 * (of_int p :: rat)" by linarith+
  then have "(of_int (6 * p) :: rat) \<le> of_int 203" "(of_int 197 :: rat) \<le> of_int (6 * p)"
    by simp_all
  then have "6 * p \<le> 203" "197 \<le> 6 * p" by (simp_all only: of_int_le_iff)
  then have "p = 33" by simp
  with a t r h show ?thesis by simp
qed

end
